theory Spec2Isabelle
  imports Main "HOL-Library.Product_Lexorder" "HOL-Library.Sublist"
begin

section \<open>Data model\<close>

text \<open>
  A coordinate pair is the Python tuple (or two-element list) \<open>(start, stop)\<close>; a coverage
  point is the tuple \<open>(point_value, start_bool)\<close>. Python integers are unbounded, so
  positions and lengths are \<open>int\<close>. Dictionaries keep insertion order and have distinct
  keys; they are association lists, read with \<open>map_of\<close>.
\<close>

type_synonym coord = "int \<times> int"
type_synonym point = "int \<times> bool"
type_synonym 'v dict = "(string \<times> 'v) list"

datatype error = IndexError | ValueError

text \<open>\<open>d[k].append(v)\<close> on a \<open>collections.defaultdict(list)\<close>: the key is created, at
  the end of the dictionary, the first time it is used.\<close>

fun dd_append :: "'v list dict \<Rightarrow> string \<Rightarrow> 'v \<Rightarrow> 'v list dict" where
  "dd_append [] k v = [(k, [v])]"
| "dd_append ((k', vs) # d) k v =
     (if k' = k then (k', vs @ [v]) # d else (k', vs) # dd_append d k v)"

text \<open>\<open>d[k]\<close> read on a finished \<open>defaultdict(list)\<close>: a missing key reads as the empty
  list.\<close>

definition dd_get :: "'v list dict \<Rightarrow> string \<Rightarrow> 'v list" where
  "dd_get d k = (case map_of d k of None \<Rightarrow> [] | Some vs \<Rightarrow> vs)"

text \<open>\<open>d[k]\<close> read on a finished \<open>defaultdict(int)\<close>: a missing key reads as 0.\<close>

definition di_get :: "int dict \<Rightarrow> string \<Rightarrow> int" where
  "di_get d k = (case map_of d k of None \<Rightarrow> 0 | Some v \<Rightarrow> v)"

section \<open>Coverage points (\<open>get_coverage_points_from_mapping_coords\<close>)\<close>

text \<open>The inner loop: two points per coordinate pair, the start point first.\<close>

fun coverage_points :: "coord list \<Rightarrow> point list" where
  "coverage_points [] = []"
| "coverage_points (coord # coords_list) =
     (fst coord, True) # (snd coord, False) # coverage_points coords_list"

fun get_coverage_points_from_mapping_coords :: "coord list dict \<Rightarrow> point list dict" where
  "get_coverage_points_from_mapping_coords [] = []"
| "get_coverage_points_from_mapping_coords ((seq_id, coords_list) # mapping_coords) =
     fold (\<lambda>p d. dd_append d seq_id p) (coverage_points coords_list) []
       @ get_coverage_points_from_mapping_coords mapping_coords"

section \<open>Coverage coordinates (\<open>get_coverage_coords_from_coverage_points\<close>,
  \<open>get_mapping_coverage_coordinates\<close>)\<close>

text \<open>
  The loop over the sorted points of one contig, the same in both source files. The state
  is \<open>open_points\<close>, \<open>current_region\<close> and the regions appended so far. Python tests
  \<open>if open_points\<close> and \<open>if not open_points\<close> on an integer: any non-zero value,
  negative ones too, is true.
\<close>

fun sweep :: "point list \<Rightarrow> int \<Rightarrow> coord \<Rightarrow> coord list \<Rightarrow> coord list" where
  "sweep [] open_points current_region regions = regions"
| "sweep ((pos, start_bool) # points) open_points (region_start, region_stop) regions =
     (let region_stop' = (if open_points \<noteq> 0 then pos else region_stop) in
      if start_bool then
        (let open_points' = open_points + 1 in
         sweep points open_points'
           (if open_points' = 1 then pos else region_start, region_stop') regions)
      else
        (let open_points' = open_points - 1 in
         sweep points open_points' (region_start, region_stop')
           (if open_points' = 0 then regions @ [(region_start, region_stop')] else regions)))"

text \<open>
  \<open>sorted(points, key=operator.itemgetter(0, 1))\<close> orders the tuples by position and
  then by the boolean, \<open>False\<close> before \<open>True\<close>: at one position the stop points come
  before the start points. That is the lexicographic order on \<open>int \<times> bool\<close>.
\<close>

definition contig_coverage_coords :: "point list \<Rightarrow> coord list" where
  "contig_coverage_coords contig_points = sweep (sort contig_points) 0 (0, 0) []"

fun get_coverage_coords_from_coverage_points :: "point list dict \<Rightarrow> coord list dict" where
  "get_coverage_coords_from_coverage_points [] = []"
| "get_coverage_coords_from_coverage_points ((contig_id, contig_points) # mapping_coverage_points) =
     (case contig_coverage_coords contig_points of
        [] \<Rightarrow> get_coverage_coords_from_coverage_points mapping_coverage_points
      | regions \<Rightarrow> (contig_id, regions) # get_coverage_coords_from_coverage_points mapping_coverage_points)"

text \<open>The merged regions of one sequence, from its list of intervals.\<close>

definition merged_regions :: "coord list \<Rightarrow> coord list" where
  "merged_regions coords_list = contig_coverage_coords (coverage_points coords_list)"

section \<open>Covered lengths (\<open>get_mapping_coverage_lengths_from_coverage_coords\<close>)\<close>

fun coverage_length :: "coord list \<Rightarrow> int \<Rightarrow> int" where
  "coverage_length [] covered = covered"
| "coverage_length (coord # coords) covered =
     coverage_length coords (covered + (snd coord - fst coord))"

fun get_mapping_coverage_lengths_from_coverage_coords :: "coord list dict \<Rightarrow> int dict" where
  "get_mapping_coverage_lengths_from_coverage_coords [] = []"
| "get_mapping_coverage_lengths_from_coverage_coords ((contig_id, coords) # mapping_coverage_coords) =
     (case coords of
        [] \<Rightarrow> get_mapping_coverage_lengths_from_coverage_coords mapping_coverage_coords
      | _ \<Rightarrow> (contig_id, coverage_length coords 0)
               # get_mapping_coverage_lengths_from_coverage_coords mapping_coverage_coords)"

section \<open>Poorly covered regions (\<open>get_poor_mapping_coverage_coordinates\<close>)\<close>

text \<open>Python list indexing: a negative index counts from the end, an index out of range
  raises \<open>IndexError\<close>.\<close>

definition py_index :: "'a list \<Rightarrow> int \<Rightarrow> error + 'a" where
  "py_index xs i =
     (if 0 \<le> i \<and> i < int (length xs) then Inr (xs ! nat i)
      else if i < 0 \<and> - int (length xs) \<le> i then Inr (xs ! nat (int (length xs) + i))
      else Inl IndexError)"

definition err_bind :: "error + 'a \<Rightarrow> ('a \<Rightarrow> error + 'b) \<Rightarrow> error + 'b" where
  "err_bind r f = (case r of Inl e \<Rightarrow> Inl e | Inr v \<Rightarrow> f v)"

text \<open>The first \<open>if\<close> of the loop body: the region before the first covered region.\<close>

definition leading_gap :: "int \<Rightarrow> coord \<Rightarrow> int \<Rightarrow> int \<Rightarrow> coord list" where
  "leading_gap contig_length first_coord sequence_context minimum_size_remap =
     (if fst first_coord > 0 then
        (let poor_mapping_stop = fst first_coord + sequence_context;
             poor_mapping_stop =
               (if poor_mapping_stop > contig_length then contig_length else poor_mapping_stop)
         in if poor_mapping_stop - 0 \<ge> minimum_size_remap then [(0, poor_mapping_stop)] else [])
      else [])"

text \<open>The \<open>for i in range(len(coords) - 1)\<close> loop; every index it reads is in range.\<close>

fun interior_gaps :: "nat list \<Rightarrow> int \<Rightarrow> coord list \<Rightarrow> int \<Rightarrow> int \<Rightarrow> coord list \<Rightarrow> coord list" where
  "interior_gaps [] contig_length coords sequence_context minimum_size_remap poor = poor"
| "interior_gaps (i # idxs) contig_length coords sequence_context minimum_size_remap poor =
     (let poor_mapping_start = snd (coords ! i) - sequence_context;
          poor_mapping_start = (if poor_mapping_start < 0 then 0 else poor_mapping_start);
          poor_mapping_stop = fst (coords ! (i + 1)) + sequence_context;
          poor_mapping_stop =
            (if poor_mapping_stop > contig_length then contig_length else poor_mapping_stop)
      in interior_gaps idxs contig_length coords sequence_context minimum_size_remap
           (if poor_mapping_stop - poor_mapping_start \<ge> minimum_size_remap
            then poor @ [(poor_mapping_start, poor_mapping_stop)] else poor))"

text \<open>The last \<open>if\<close> of the loop body: the region after the last covered region.\<close>

definition trailing_gap :: "int \<Rightarrow> coord \<Rightarrow> int \<Rightarrow> int \<Rightarrow> coord list" where
  "trailing_gap contig_length last_coord sequence_context minimum_size_remap =
     (if snd last_coord < contig_length then
        (let poor_mapping_start = snd last_coord - sequence_context;
             poor_mapping_start = (if poor_mapping_start < 0 then 0 else poor_mapping_start)
         in if contig_length - poor_mapping_start \<ge> minimum_size_remap
            then [(poor_mapping_start, contig_length)] else [])
      else [])"

text \<open>
  The tuples the loop body appends for a contig that is a key of
  \<open>mapping_coverage_coords\<close>. The first thing it reads is \<open>coords[0][0]\<close>, which raises
  on an empty list.
\<close>

definition contig_poor_coords :: "int \<Rightarrow> coord list \<Rightarrow> int \<Rightarrow> int \<Rightarrow> error + coord list" where
  "contig_poor_coords contig_length coords sequence_context minimum_size_remap =
     err_bind (py_index coords 0) (\<lambda>first_coord.
     err_bind (Inr (leading_gap contig_length first_coord sequence_context minimum_size_remap)) (\<lambda>poor.
     err_bind (Inr (interior_gaps [0 ..< length coords - 1] contig_length coords
                      sequence_context minimum_size_remap poor)) (\<lambda>poor.
     err_bind (py_index coords (- 1)) (\<lambda>last_coord.
     Inr (poor @ trailing_gap contig_length last_coord sequence_context minimum_size_remap)))))"

fun poor_coords_loop ::
  "int dict \<Rightarrow> coord list dict \<Rightarrow> int \<Rightarrow> int \<Rightarrow> coord list dict \<Rightarrow> error + coord list dict" where
  "poor_coords_loop [] mapping_coverage_coords sequence_context minimum_size_remap poor_mapping_coords =
     Inr poor_mapping_coords"
| "poor_coords_loop ((contig_id, contig_length) # contig_lengths) mapping_coverage_coords
       sequence_context minimum_size_remap poor_mapping_coords =
     (case map_of mapping_coverage_coords contig_id of
        Some coords \<Rightarrow>
          err_bind (contig_poor_coords contig_length coords sequence_context minimum_size_remap)
            (\<lambda>new. poor_coords_loop contig_lengths mapping_coverage_coords sequence_context
                     minimum_size_remap (fold (\<lambda>c d. dd_append d contig_id c) new poor_mapping_coords))
      | None \<Rightarrow>
          poor_coords_loop contig_lengths mapping_coverage_coords sequence_context
            minimum_size_remap (dd_append poor_mapping_coords contig_id (0, contig_length)))"

definition get_poor_mapping_coverage_coordinates ::
  "int dict \<Rightarrow> coord list dict \<Rightarrow> int \<Rightarrow> int \<Rightarrow> error + coord list dict" where
  "get_poor_mapping_coverage_coordinates contig_lengths mapping_coverage_coords
       sequence_context minimum_size_remap =
     poor_coords_loop contig_lengths mapping_coverage_coords sequence_context minimum_size_remap []"

section \<open>Strings\<close>

text \<open>
  Strings are lists of characters with codes 0 to 255. The white space of
  \<open>str.split()\<close> and of \<open>int()\<close> in that range: tab to carriage return, the four
  separators 0x1C to 0x1F, the space, 0x85 and 0xA0.
\<close>

definition is_space :: "char \<Rightarrow> bool" where
  "is_space c \<longleftrightarrow> c \<in> set [CHR 0x09, CHR 0x0A, CHR 0x0B, CHR 0x0C, CHR 0x0D,
     CHR 0x1C, CHR 0x1D, CHR 0x1E, CHR 0x1F, CHR 0x20, CHR 0x85, CHR 0xA0]"

text \<open>\<open>line.split()\<close>: the maximal runs of characters that are not white space.\<close>

function split_ws :: "string \<Rightarrow> string list" where
  "split_ws s =
     (case dropWhile is_space s of
        [] \<Rightarrow> []
      | c # cs \<Rightarrow> takeWhile (\<lambda>x. \<not> is_space x) (c # cs)
                 # split_ws (dropWhile (\<lambda>x. \<not> is_space x) (c # cs)))"
  by pat_completeness auto
termination
proof (relation "measure length")
  show "wf (measure length)" by simp
next
  fix s :: string and c cs
  assume a: "dropWhile is_space s = c # cs"
  then have "\<not> is_space c" by (metis hd_dropWhile list.sel(1) list.distinct(1))
  then have "length (dropWhile (\<lambda>x. \<not> is_space x) (c # cs)) \<le> length cs"
    by (simp add: length_dropWhile_le)
  moreover have "length (c # cs) \<le> length s"
    using a length_dropWhile_le[of is_space s] by simp
  ultimately show "(dropWhile (\<lambda>x. \<not> is_space x) (c # cs), s) \<in> measure length" by simp
qed

declare split_ws.simps [simp del]

text \<open>\<open>s.split(sep)\<close> for a non-empty separator: cut at each occurrence of \<open>sep\<close>, found
  from the left, occurrences not overlapping. \<open>piece\<close> is the part read since the last cut.\<close>

fun split_from :: "string \<Rightarrow> string \<Rightarrow> string \<Rightarrow> string list" where
  "split_from sep piece [] = [piece]"
| "split_from sep piece (c # cs) =
     (if sep \<noteq> [] \<and> prefix sep (c # cs)
      then piece # split_from sep [] (drop (length sep) (c # cs))
      else split_from sep (piece @ [c]) cs)"

definition split_str :: "string \<Rightarrow> string \<Rightarrow> string list" where
  "split_str sep s = split_from sep [] s"

text \<open>\<open>sub in s\<close>.\<close>

fun contains_str :: "string \<Rightarrow> string \<Rightarrow> bool" where
  "contains_str sub [] = (sub = [])"
| "contains_str sub (c # cs) = (prefix sub (c # cs) \<or> contains_str sub cs)"

text \<open>\<open>sep.join(parts)\<close>.\<close>

fun join_str :: "string \<Rightarrow> string list \<Rightarrow> string" where
  "join_str sep [] = []"
| "join_str sep [x] = x"
| "join_str sep (x # y # parts) = x @ sep @ join_str sep (y # parts)"

text \<open>
  \<open>int(s)\<close> on a string: white space around the number is dropped, then an optional sign
  and decimal digits, single underscores allowed between digits; anything else raises
  \<open>ValueError\<close>. Since CPython 3.11 (and the security releases of 3.7 to 3.10)
  \<open>int\<close> and \<open>str\<close> also raise \<open>ValueError\<close> on a number of more than
  \<open>sys.get_int_max_str_digits()\<close> decimal digits, 4300 unless configured; the value 0
  switches the limit off, and older interpreters have none. The source does not fix the
  interpreter, so the limit is the parameter \<open>max_str_digits\<close>.
\<close>

definition is_digit :: "char \<Rightarrow> bool" where
  "is_digit c \<longleftrightarrow> 48 \<le> (of_char c :: nat) \<and> (of_char c :: nat) \<le> 57"

definition digit_of :: "char \<Rightarrow> nat" where
  "digit_of c = of_char c - 48"

fun digits_value :: "nat \<Rightarrow> string \<Rightarrow> nat option" where
  "digits_value n [] = Some n"
| "digits_value n (c # cs) =
     (if is_digit c then digits_value (10 * n + digit_of c) cs
      else if c = CHR ''_'' then
        (case cs of
           [] \<Rightarrow> None
         | d # ds \<Rightarrow> if is_digit d then digits_value (10 * n + digit_of d) ds else None)
      else None)"

definition strip :: "string \<Rightarrow> string" where
  "strip s = rev (dropWhile is_space (rev (dropWhile is_space s)))"

definition unsigned_value :: "string \<Rightarrow> nat option" where
  "unsigned_value s =
     (case s of [] \<Rightarrow> None
      | d # ds \<Rightarrow> if is_digit d then digits_value (digit_of d) ds else None)"

definition py_int :: "nat \<Rightarrow> string \<Rightarrow> error + int" where
  "py_int max_str_digits s =
     (case strip s of
        [] \<Rightarrow> Inl ValueError
      | c # cs \<Rightarrow>
          (case (if c = CHR ''-'' then map_option (\<lambda>n. - int n) (unsigned_value cs)
                 else if c = CHR ''+'' then map_option int (unsigned_value cs)
                 else map_option int (unsigned_value (c # cs))) of
             None \<Rightarrow> Inl ValueError
           | Some v \<Rightarrow>
               if 0 < max_str_digits \<and> max_str_digits < length (filter is_digit s)
               then Inl ValueError else Inr v))"

text \<open>The decimal numeral of an integer, and \<open>str(n)\<close>, which gives it when the number
  of its digits is within the limit.\<close>

function str_nat :: "nat \<Rightarrow> string" where
  "str_nat n = (if n < 10 then [char_of (48 + n)] else str_nat (n div 10) @ [char_of (48 + n mod 10)])"
  by pat_completeness auto
termination
  by (relation "measure id") auto

declare str_nat.simps [simp del]

definition decimal :: "int \<Rightarrow> string" where
  "decimal i = (if i < 0 then CHR ''-'' # str_nat (nat (- i)) else str_nat (nat i))"

definition py_str :: "nat \<Rightarrow> int \<Rightarrow> error + string" where
  "py_str max_str_digits i =
     (if 0 < max_str_digits \<and> max_str_digits < length (str_nat (nat \<bar>i\<bar>))
      then Inl ValueError else Inr (decimal i))"

section \<open>Relocation of remapped fragments (\<open>relocate_remapped_fragments_to_source_contigs\<close>)\<close>

text \<open>
  The body of the loop over the lines of the mapping file: the line written for one line
  read, or the exception raised. The statements are taken in the source's order, so the
  first failing one decides the error.
\<close>

text \<open>The statement \<open>segment_start = int(name_parsed[1].split("_")[-3])\<close>.\<close>

definition segment_start_of :: "nat \<Rightarrow> string list \<Rightarrow> error + int" where
  "segment_start_of max_str_digits name_parsed =
     err_bind (py_index name_parsed 1) (\<lambda>name_rest.
     err_bind (py_index (split_str ''_'' name_rest) (- 3)) (py_int max_str_digits))"

definition relocate_line :: "nat \<Rightarrow> string \<Rightarrow> error + string" where
  "relocate_line max_str_digits line =
     (let parsed = split_ws line in
      err_bind (py_index parsed 0) (\<lambda>subject.
      if contains_str ''segment'' subject then
        (let name_parsed = split_str ''_segment_'' subject in
         err_bind (py_index name_parsed 0) (\<lambda>new_name.
         err_bind (segment_start_of max_str_digits name_parsed) (\<lambda>segment_start.
         err_bind (py_index parsed 2) (\<lambda>field2.
         err_bind (py_int max_str_digits field2) (\<lambda>local_start.
         err_bind (py_index parsed 3) (\<lambda>field3.
         err_bind (py_int max_str_digits field3) (\<lambda>local_stop.
         (let mapping_start = segment_start + local_start;
              mapping_stop = segment_start + local_stop
          in err_bind (py_index parsed 1) (\<lambda>field1.
             err_bind (py_str max_str_digits mapping_start) (\<lambda>start_text.
             err_bind (py_str max_str_digits mapping_stop) (\<lambda>stop_text.
             Inr (new_name @ [CHR 0x09] @ field1 @ [CHR 0x09] @ start_text @ [CHR 0x09]
                  @ stop_text @ [CHR 0x09] @ join_str [CHR 0x09] (drop 4 parsed)
                  @ [CHR 0x0A]))))))))))))
      else Inr line))"

fun relocate_remapped_fragments_to_source_contigs ::
  "nat \<Rightarrow> string list \<Rightarrow> error + string list" where
  "relocate_remapped_fragments_to_source_contigs max_str_digits [] = Inr []"
| "relocate_remapped_fragments_to_source_contigs max_str_digits (line # lines) =
     err_bind (relocate_line max_str_digits line) (\<lambda>new_line.
     err_bind (relocate_remapped_fragments_to_source_contigs max_str_digits lines) (\<lambda>new_lines.
     Inr (new_line # new_lines)))"


section \<open>Specification notions\<close>

text \<open>The positions covered by at least one interval of the list, intervals being
  half-open.\<close>

definition covered_positions :: "coord list \<Rightarrow> int set" where
  "covered_positions coords_list = {x. \<exists>c\<in>set coords_list. fst c \<le> x \<and> x < snd c}"




text \<open>The positions of the regions of a list, regions being half-open.\<close>

definition region_positions :: "coord list \<Rightarrow> int set" where
  "region_positions rs = (\<Union>r\<in>set rs. {fst r ..< snd r})"

text \<open>A region list is in order when each region has positive length and no region starts
  before an earlier one stops. Two regions may touch.\<close>

definition regions_ok :: "coord list \<Rightarrow> bool" where
  "regions_ok rs \<longleftrightarrow> sorted_wrt (\<lambda>r r'. snd r \<le> fst r') rs \<and> (\<forall>r\<in>set rs. fst r < snd r)"

text \<open>The gap candidates of the specification, for a sequence of length \<open>L\<close>, context
  \<open>C\<close> and covered regions \<open>R0\<close>, \<open>Ri\<close>, \<open>Rj\<close>, \<open>Rn\<close>.\<close>

definition region_length :: "coord \<Rightarrow> int" where
  "region_length r = snd r - fst r"

definition leading_candidate :: "int \<Rightarrow> coord \<Rightarrow> int \<Rightarrow> coord" where
  "leading_candidate L R0 C = (0, min (fst R0 + C) L)"

definition interior_candidate :: "int \<Rightarrow> coord \<Rightarrow> coord \<Rightarrow> int \<Rightarrow> coord" where
  "interior_candidate L Ri Rj C = (max (snd Ri - C) 0, min (fst Rj + C) L)"

definition trailing_candidate :: "int \<Rightarrow> coord \<Rightarrow> int \<Rightarrow> coord" where
  "trailing_candidate L Rn C = (max (snd Rn - C) 0, L)"

text \<open>
  What the specification has the gap extractor emit for a sequence with covered regions
  \<open>rs\<close>: the leading candidate, the interior candidates of the adjacent pairs, the
  trailing candidate, each kept when its condition holds and its length reaches \<open>M\<close>.
\<close>

definition expected_gaps :: "int \<Rightarrow> coord list \<Rightarrow> int \<Rightarrow> int \<Rightarrow> coord list" where
  "expected_gaps L rs C M =
     (if fst (hd rs) > 0 \<and> M \<le> region_length (leading_candidate L (hd rs) C)
      then [leading_candidate L (hd rs) C] else [])
     @ filter (\<lambda>g. M \<le> region_length g)
         (map (\<lambda>i. interior_candidate L (rs ! i) (rs ! Suc i) C) [0 ..< length rs - 1])
     @ (if snd (last rs) < L \<and> M \<le> region_length (trailing_candidate L (last rs) C)
        then [trailing_candidate L (last rs) C] else [])"

text \<open>The gap list of sequence \<open>c\<close>: nothing without a length, the whole sequence without
  covered regions.\<close>

definition expected_poor_coords :: "int dict \<Rightarrow> coord list dict \<Rightarrow> int \<Rightarrow> int \<Rightarrow> string \<Rightarrow> coord list" where
  "expected_poor_coords contig_lengths cov C M c =
     (case map_of contig_lengths c of
        None \<Rightarrow> []
      | Some L \<Rightarrow> (case map_of cov c of None \<Rightarrow> [(0, L)] | Some rs \<Rightarrow> expected_gaps L rs C M))"

section \<open>Notions used in the proofs\<close>

text \<open>The invariant of \<open>sweep\<close>: \<open>prev\<close> is the last point read.\<close>

definition sweep_inv :: "point \<Rightarrow> int \<Rightarrow> int \<Rightarrow> coord list \<Rightarrow> bool" where
  "sweep_inv prev k s acc \<longleftrightarrow>
     (\<forall>r\<in>set acc. fst r < snd r \<and> snd r \<le> fst prev) \<and>
     sorted_wrt (\<lambda>r r'. snd r \<le> fst r') acc \<and>
     (1 \<le> k \<longrightarrow> (s, True) \<le> prev \<and> (\<forall>r\<in>set acc. snd r \<le> s))"

text \<open>The length swept while at least one mapping is open, over a list of points read from
  position \<open>cur\<close> with \<open>k\<close> mappings open.\<close>

fun open_weight :: "int \<Rightarrow> int \<Rightarrow> point list \<Rightarrow> int" where
  "open_weight k cur [] = 0"
| "open_weight k cur ((p, b) # ps) =
     (if 1 \<le> k then p - cur else 0) + open_weight (if b then k + 1 else k - 1) p ps"

text \<open>The number of mappings open at position \<open>x\<close>: starts at or before \<open>x\<close> minus
  stops at or before \<open>x\<close>.\<close>

definition step_of :: "point \<Rightarrow> int" where
  "step_of e = (if snd e then 1 else - 1)"

definition depth :: "point list \<Rightarrow> int \<Rightarrow> int" where
  "depth ps x = (\<Sum>e\<leftarrow>ps. if fst e \<le> x then step_of e else 0)"

definition net :: "point list \<Rightarrow> int" where
  "net ps = (\<Sum>e\<leftarrow>ps. step_of e)"

section \<open>The regions of the sweep are in order\<close>

lemma point_le_iff: "((p::int, b::bool) \<le> (q, c)) = (p < q \<or> (p = q \<and> (b \<longrightarrow> c)))"
  by (auto simp: less_eq_prod_def)

lemma sweep_regions_ok:
  "sorted (prev # ps) \<Longrightarrow> sweep_inv prev k s acc \<Longrightarrow> regions_ok (sweep ps k (s, t) acc)"
proof (induction ps arbitrary: prev k s t acc)
  case Nil
  then show ?case by (simp add: sweep_inv_def regions_ok_def)
next
  case (Cons e ps)
  obtain p b where e: "e = (p, b)" by (cases e)
  obtain q c where prev: "prev = (q, c)" by (cases prev)
  from Cons.prems(1) have le: "prev \<le> (p, b)" and srt: "sorted ((p, b) # ps)"
    by (simp_all add: e)
  show ?case
  proof (cases b)
    case True
    have "sweep_inv (p, True) (k + 1) (if k + 1 = 1 then p else s) acc"
      using Cons.prems(2) le True unfolding sweep_inv_def prev point_le_iff
      by (auto simp: point_le_iff)
    from Cons.IH[OF _ this] srt True show ?thesis
      by (simp add: e Let_def)
  next
    case False
    show ?thesis
    proof (cases "k - 1 = 0")
      case k: True
      have "sweep_inv (p, False) (k - 1) s (acc @ [(s, p)])"
        using Cons.prems(2) le False k unfolding sweep_inv_def prev point_le_iff
        by (auto simp: point_le_iff sorted_wrt_append)
      from Cons.IH[OF _ this] srt False k show ?thesis
        by (simp add: e Let_def)
    next
      case k: False
      have "sweep_inv (p, False) (k - 1) s acc"
        using Cons.prems(2) le False k unfolding sweep_inv_def prev point_le_iff
        by (auto simp: point_le_iff)
      from Cons.IH[OF _ this] srt False k show ?thesis
        by (simp add: e Let_def)
    qed
  qed
qed

lemma contig_coverage_coords_ok: "regions_ok (contig_coverage_coords pts)"
proof (cases "sort pts")
  case Nil
  then show ?thesis by (simp add: contig_coverage_coords_def regions_ok_def)
next
  case (Cons e es)
  have "sorted (e # e # es)" using sorted_sort[of pts] Cons by simp
  moreover have "sweep_inv e 0 0 []" by (simp add: sweep_inv_def)
  ultimately have "regions_ok (sweep (e # es) 0 (0, 0) [])" by (rule sweep_regions_ok)
  then show ?thesis by (simp add: contig_coverage_coords_def Cons)
qed

lemma regions_ok_nth: "regions_ok rs \<Longrightarrow> Suc i < length rs \<Longrightarrow> snd (rs ! i) \<le> fst (rs ! Suc i)"
  by (simp add: regions_ok_def sorted_wrt_iff_nth_less)

lemma regions_ok_sorted: "regions_ok rs \<Longrightarrow> sorted (map fst rs)"
  unfolding regions_ok_def
  by (induction rs) (auto simp: less_eq_prod_def intro: order_trans less_imp_le)

section \<open>The covered length is the measure of the union\<close>

lemma coverage_length_sum: "coverage_length cs a = a + (\<Sum>c\<leftarrow>cs. snd c - fst c)"
  by (induction cs arbitrary: a) auto

lemma sweep_open_weight:
  "k + net ps \<le> 0 \<Longrightarrow>
   coverage_length (sweep ps k (s, t) acc) 0 =
     coverage_length acc 0 + (if 1 \<le> k then cur - s else 0) + open_weight k cur ps"
proof (induction ps arbitrary: k s t acc cur)
  case Nil
  then show ?case by (simp add: net_def)
next
  case (Cons e ps)
  obtain p b where e: "e = (p, b)" by (cases e)
  show ?case
  proof (cases b)
    case True
    from Cons.prems have "(k + 1) + net ps \<le> 0" by (simp add: net_def e True step_of_def)
    from Cons.IH[OF this, of "if k + 1 = 1 then p else s" _ acc p] True show ?thesis
      by (simp add: e Let_def)
  next
    case False
    from Cons.prems have n: "(k - 1) + net ps \<le> 0" by (simp add: net_def e False step_of_def)
    show ?thesis
    proof (cases "k - 1 = 0")
      case k: True
      from Cons.IH[OF n, of s _ "acc @ [(s, p)]" p] False k show ?thesis
        by (simp add: e Let_def coverage_length_sum)
    next
      case k: False
      from Cons.IH[OF n, of s _ acc p] False k show ?thesis
        by (simp add: e Let_def)
    qed
  qed
qed

lemma depth_below: "\<forall>e\<in>set ps. x < fst e \<Longrightarrow> depth ps x = 0"
  by (induction ps) (auto simp: depth_def)

lemma depth_above: "\<forall>e\<in>set ps. fst e \<le> x \<Longrightarrow> depth ps x = net ps"
  by (induction ps) (auto simp: depth_def net_def)

lemma depth_Cons: "depth (e # ps) x = (if fst e \<le> x then step_of e else 0) + depth ps x"
  by (simp add: depth_def)

lemma open_weight_card:
  "sorted (map fst ps) \<Longrightarrow> \<forall>e\<in>set ps. cur \<le> fst e \<Longrightarrow>
   open_weight k cur ps = int (card {x. cur \<le> x \<and> x < last (cur # map fst ps) \<and> 1 \<le> k + depth ps x})"
proof (induction ps arbitrary: k cur)
  case Nil
  have "{x. cur \<le> x \<and> x < cur \<and> 1 \<le> k + depth [] x} = {}" by auto
  then have "card {x. cur \<le> x \<and> x < cur \<and> 1 \<le> k + depth [] x} = 0"
    by (simp only: card.empty)
  then show ?case by simp
next
  case (Cons e ps)
  obtain p b where e: "e = (p, b)" by (cases e)
  let ?k' = "if b then k + 1 else k - 1"
  let ?l = "last (p # map fst ps)"
  from Cons.prems have srt: "sorted (map fst ps)" and ge: "\<forall>e\<in>set ps. p \<le> fst e" and cp: "cur \<le> p"
    by (auto simp: e)
  have pl: "p \<le> ?l" using ge by (cases ps rule: rev_cases) auto
  let ?S1 = "{x. cur \<le> x \<and> x < p \<and> 1 \<le> k}"
  let ?S2 = "{x. p \<le> x \<and> x < ?l \<and> 1 \<le> ?k' + depth ps x}"
  have IH: "open_weight ?k' p ps = int (card ?S2)" by (rule Cons.IH[OF srt ge])
  have below: "depth (e # ps) x = 0" if "x < p" for x
    using that ge by (intro depth_below) (auto simp: e)
  have above: "k + depth (e # ps) x = ?k' + depth ps x" if "p \<le> x" for x
    using that by (simp add: depth_Cons e step_of_def)
  have split: "{x. cur \<le> x \<and> x < last (cur # map fst (e # ps)) \<and> 1 \<le> k + depth (e # ps) x} = ?S1 \<union> ?S2"
  proof (rule set_eqI)
    fix x
    show "x \<in> {x. cur \<le> x \<and> x < last (cur # map fst (e # ps)) \<and> 1 \<le> k + depth (e # ps) x} \<longleftrightarrow> x \<in> ?S1 \<union> ?S2"
    proof (cases "x < p")
      case True
      then show ?thesis using below[OF True] pl by (auto simp: e)
    next
      case False
      then have "p \<le> x" by simp
      from above[OF this] False cp show ?thesis by (auto simp: e)
    qed
  qed
  have S1: "?S1 = (if 1 \<le> k then {cur..<p} else {})" by auto
  have f1: "finite ?S1" by (simp add: S1)
  have "?S2 \<subseteq> {p..<?l}" by auto
  then have f2: "finite ?S2" by (rule finite_subset) simp
  have dj: "?S1 \<inter> ?S2 = {}" by auto
  have c1: "int (card ?S1) = (if 1 \<le> k then p - cur else 0)" using cp by (simp add: S1)
  have "int (card (?S1 \<union> ?S2)) = int (card ?S1) + int (card ?S2)"
    using card_Un_disjoint[OF f1 f2 dj] by simp
  then show ?case unfolding split using IH c1 by (simp add: e)
qed

lemma sum_list_insort: "(\<Sum>e\<leftarrow>insort x xs. f e) = f x + (\<Sum>e\<leftarrow>xs. (f e :: int))"
  by (induction xs) auto

lemma sum_list_sort: "(\<Sum>e\<leftarrow>sort xs. f e) = (\<Sum>e\<leftarrow>xs. (f e :: int))"
  by (induction xs) (simp_all add: sum_list_insort)

lemma depth_sort: "depth (sort ps) x = depth ps x"
  by (simp add: depth_def sum_list_sort)

lemma net_sort: "net (sort ps) = net ps"
  by (simp add: net_def sum_list_sort)

lemma sorted_points_fst: "sorted (ps :: point list) \<Longrightarrow> sorted (map fst ps)"
  by (induction ps) (auto simp: less_eq_prod_def)

lemma net_coverage_points: "net (coverage_points ivs) = 0"
  by (induction ivs) (auto simp: net_def step_of_def)

lemma sorted_le_last: "sorted xs \<Longrightarrow> x \<in> set xs \<Longrightarrow> x \<le> last xs"
  by (induction xs) auto

lemma contig_length_card:
  assumes "net pts = 0"
  shows "coverage_length (contig_coverage_coords pts) 0 = int (card {x. 1 \<le> depth pts x})"
proof (cases "sort pts")
  case Nil
  then have "pts = []" by (metis length_sort length_0_conv)
  then show ?thesis by (simp add: contig_coverage_coords_def depth_def)
next
  case (Cons e es)
  let ?ps = "e # es"
  have srt: "sorted (map fst ?ps)" using sorted_sort[of pts] Cons sorted_points_fst by metis
  then have ge: "\<forall>e'\<in>set ?ps. fst e \<le> fst e'" by auto
  have le: "\<forall>e'\<in>set ?ps. fst e' \<le> last (map fst ?ps)"
    using sorted_le_last[OF srt] by simp
  have n0: "net ?ps = 0" using net_sort[of pts] Cons assms by simp
  have d: "depth ?ps x = depth pts x" for x using depth_sort[of pts x] Cons by simp
  have "coverage_length (sweep ?ps 0 (0, 0) []) 0 = open_weight 0 (fst e) ?ps"
    using sweep_open_weight[of 0 ?ps 0 0 "[]" "fst e"] n0 by simp
  also have "\<dots> = int (card {x. fst e \<le> x \<and> x < last (fst e # map fst ?ps) \<and> 1 \<le> 0 + depth ?ps x})"
    by (rule open_weight_card[OF srt ge])
  also have "{x. fst e \<le> x \<and> x < last (fst e # map fst ?ps) \<and> 1 \<le> 0 + depth ?ps x} = {x. 1 \<le> depth ?ps x}"
  proof (rule set_eqI)
    fix x
    have "depth ?ps x = 0" if "x < fst e"
      using that ge by (intro depth_below) auto
    moreover have "depth ?ps x = 0" if "last (map fst ?ps) \<le> x"
      using depth_above[of ?ps x] le that n0 by fastforce
    ultimately show "x \<in> {x. fst e \<le> x \<and> x < last (fst e # map fst ?ps) \<and> 1 \<le> 0 + depth ?ps x} \<longleftrightarrow> x \<in> {x. 1 \<le> depth ?ps x}"
      by (cases "x < fst e"; cases "last (map fst ?ps) \<le> x") auto
  qed
  finally show ?thesis by (simp add: contig_coverage_coords_def Cons d)
qed

lemma depth_coverage_points:
  "depth (coverage_points ivs) x = (\<Sum>c\<leftarrow>ivs. (if fst c \<le> x then 1 else 0) - (if snd c \<le> x then 1 else 0))"
  by (induction ivs) (auto simp: depth_def step_of_def)

lemma depth_valid:
  "\<forall>c\<in>set ivs. fst c \<le> snd c \<Longrightarrow>
   depth (coverage_points ivs) x = int (length (filter (\<lambda>c. fst c \<le> x \<and> x < snd c) ivs))"
  by (induction ivs) (auto simp: depth_def step_of_def)

lemma depth_covered:
  assumes "\<forall>c\<in>set ivs. fst c \<le> snd c"
  shows "{x. 1 \<le> depth (coverage_points ivs) x} = covered_positions ivs"
proof -
  have "1 \<le> depth (coverage_points ivs) x \<longleftrightarrow> (\<exists>c\<in>set ivs. fst c \<le> x \<and> x < snd c)" for x
    unfolding depth_valid[OF assms]
    by (simp add: int_one_le_iff_zero_less filter_empty_conv)
  then show ?thesis by (simp add: covered_positions_def)
qed

lemma merged_length_card:
  "\<forall>c\<in>set ivs. fst c \<le> snd c \<Longrightarrow> 
    coverage_length (merged_regions ivs) 0 = int (card (covered_positions ivs))"
  by (simp add: merged_regions_def contig_length_card net_coverage_points depth_covered)

section \<open>The dictionaries of the coverage pipeline\<close>

lemma fold_dd_append_single:
  "fold (\<lambda>p d. dd_append d k p) ps [(k, qs)] = [(k, qs @ ps)]"
  by (induction ps arbitrary: qs) auto

lemma fold_dd_append_empty:
  "fold (\<lambda>p d. dd_append d k p) ps [] = (if ps = [] then [] else [(k, ps)])"
  by (cases ps) (simp_all add: fold_dd_append_single)

lemma coverage_points_absent:
  "map_of d k = None \<Longrightarrow> map_of (get_coverage_points_from_mapping_coords d) k = None"
  by (induction d) (auto simp: fold_dd_append_empty split: if_splits)

lemma coverage_points_empty_iff: "coverage_points cs = [] \<longleftrightarrow> cs = []"
  by (cases cs) simp_all

lemma coverage_points_step:
  "get_coverage_points_from_mapping_coords ((k, v) # d) =
     (if v = [] then [] else [(k, coverage_points v)]) @ get_coverage_points_from_mapping_coords d"
  by (simp add: fold_dd_append_empty coverage_points_empty_iff)

lemma coverage_points_distinct:
  "distinct (map fst d) \<Longrightarrow> distinct (map fst (get_coverage_points_from_mapping_coords d))"
proof (induction d)
  case Nil
  then show ?case by simp
next
  case (Cons e d)
  obtain k v where e: "e = (k, v)" by (cases e)
  from Cons.prems have "map_of d k = None" by (auto simp: e map_of_eq_None_iff)
  then have "k \<notin> fst ` set (get_coverage_points_from_mapping_coords d)"
    using coverage_points_absent[of d k] by (simp add: map_of_eq_None_iff)
  with Cons show ?case unfolding e coverage_points_step by auto
qed

lemma coverage_points_lookup:
  "distinct (map fst d) \<Longrightarrow>
   map_of (get_coverage_points_from_mapping_coords d) k =
     (case map_of d k of None \<Rightarrow> None
      | Some cs \<Rightarrow> if cs = [] then None else Some (coverage_points cs))"
proof (induction d)
  case Nil
  then show ?case by simp
next
  case (Cons e d)
  obtain k' v where e: "e = (k', v)" by (cases e)
  from Cons.prems have nk: "map_of d k' = None" by (auto simp: e map_of_eq_None_iff)
  from nk have nk': "map_of (get_coverage_points_from_mapping_coords d) k' = None"
    by (rule coverage_points_absent)
  from Cons.prems have IH: "map_of (get_coverage_points_from_mapping_coords d) k =
     (case map_of d k of None \<Rightarrow> None
      | Some cs \<Rightarrow> if cs = [] then None else Some (coverage_points cs))"
    by (intro Cons.IH) simp
  show ?case
  proof (cases "k = k'")
    case True
    then show ?thesis unfolding e coverage_points_step by (simp add: nk nk')
  next
    case False
    then show ?thesis unfolding e coverage_points_step by (simp add: IH)
  qed
qed

lemma coverage_coords_absent:
  "map_of d k = None \<Longrightarrow> map_of (get_coverage_coords_from_coverage_points d) k = None"
  by (induction d) (auto split: if_splits list.splits)

lemma coverage_coords_distinct:
  "distinct (map fst d) \<Longrightarrow> distinct (map fst (get_coverage_coords_from_coverage_points d))"
proof (induction d)
  case Nil
  then show ?case by simp
next
  case (Cons e d)
  obtain k v where e: "e = (k, v)" by (cases e)
  from Cons.prems have "map_of d k = None" by (auto simp: e map_of_eq_None_iff)
  then have "k \<notin> fst ` set (get_coverage_coords_from_coverage_points d)"
    using coverage_coords_absent[of d k] by (simp add: map_of_eq_None_iff)
  with Cons show ?case by (auto simp: e split: list.splits)
qed

lemma coverage_coords_lookup:
  "distinct (map fst d) \<Longrightarrow>
   map_of (get_coverage_coords_from_coverage_points d) k =
     (case map_of d k of None \<Rightarrow> None
      | Some pts \<Rightarrow> if contig_coverage_coords pts = [] then None
                    else Some (contig_coverage_coords pts))"
proof (induction d)
  case Nil
  then show ?case by simp
next
  case (Cons e d)
  obtain k' v where e: "e = (k', v)" by (cases e)
  from Cons.prems have nk: "map_of d k' = None" by (auto simp: e map_of_eq_None_iff)
  from nk have nk': "map_of (get_coverage_coords_from_coverage_points d) k' = None"
    by (rule coverage_coords_absent)
  from Cons show ?case
    by (cases "contig_coverage_coords v") (auto simp: e nk nk' split: option.splits)
qed

lemma coverage_lengths_absent:
  "map_of d k = None \<Longrightarrow> map_of (get_mapping_coverage_lengths_from_coverage_coords d) k = None"
  by (induction d) (auto split: if_splits list.splits)

lemma coverage_lengths_lookup:
  "distinct (map fst d) \<Longrightarrow>
   map_of (get_mapping_coverage_lengths_from_coverage_coords d) k =
     (case map_of d k of None \<Rightarrow> None
      | Some coords \<Rightarrow> if coords = [] then None else Some (coverage_length coords 0))"
proof (induction d)
  case Nil
  then show ?case by simp
next
  case (Cons e d)
  obtain k' v where e: "e = (k', v)" by (cases e)
  from Cons.prems have nk: "map_of d k' = None" by (auto simp: e map_of_eq_None_iff)
  from nk have nk': "map_of (get_mapping_coverage_lengths_from_coverage_coords d) k' = None"
    by (rule coverage_lengths_absent)
  from Cons show ?case
    by (cases v) (auto simp: e nk nk' split: option.splits)
qed

lemma merged_regions_Nil: "merged_regions [] = []"
  by (simp add: merged_regions_def contig_coverage_coords_def)

lemma pipeline_regions:
  assumes "distinct (map fst mapping_coords)" and "map_of mapping_coords seq_id = Some coords_list"
  shows "dd_get (get_coverage_coords_from_coverage_points
                  (get_coverage_points_from_mapping_coords mapping_coords)) seq_id
           = merged_regions coords_list"
  using assms
  by (simp add: dd_get_def coverage_coords_lookup coverage_points_distinct coverage_points_lookup
        merged_regions_Nil)
     (simp add: merged_regions_def)

lemma pipeline_lengths:
  assumes "distinct (map fst mapping_coords)" and "map_of mapping_coords seq_id = Some coords_list"
  shows "di_get (get_mapping_coverage_lengths_from_coverage_coords
                  (get_coverage_coords_from_coverage_points
                    (get_coverage_points_from_mapping_coords mapping_coords))) seq_id
           = coverage_length (merged_regions coords_list) 0"
proof -
  let ?regions = "get_coverage_coords_from_coverage_points
                    (get_coverage_points_from_mapping_coords mapping_coords)"
  have d: "distinct (map fst ?regions)"
    by (intro coverage_coords_distinct coverage_points_distinct assms(1))
  have "dd_get ?regions seq_id = merged_regions coords_list" by (rule pipeline_regions[OF assms])
  then show ?thesis
    by (auto simp: di_get_def coverage_lengths_lookup[OF d] dd_get_def split: option.splits)
qed

section \<open>Claims on the coverage regions\<close>

text \<open>
  Claim C1, as stated, fails: the two touching intervals \<open>(10, 20)\<close> and \<open>(20, 30)\<close> are
  not merged into \<open>(10, 30)\<close>, and the first region stops where the second starts. The
  stop point \<open>(20, False)\<close> sorts before the start point \<open>(20, True)\<close>, so
  \<open>open_points\<close> falls to zero at 20 and the region is closed there.
\<close>

theorem touching_intervals_stay_apart:
  "merged_regions [(10, 20), (20, 30)] \<noteq> [(10, 30)] \<and>
   snd (merged_regions [(10, 20), (20, 30)] ! 0) \<ge> fst (merged_regions [(10, 20), (20, 30)] ! 1)"
proof -
  have "merged_regions [(10, 20), (20, 30)] = [(10, 20), (20, 30)]" by code_simp
  then show ?thesis by simp
qed

text \<open>
  Claim C1, amended: for every list of input intervals the regions of the merger are sorted
  ascending by start, no region starts before the preceding one stops (they never overlap,
  but may touch: \<open>R_i.stop \<le> R_{i+1}.start\<close>), and every region has positive length;
  the touching intervals \<open>(10, 20)\<close> and \<open>(20, 30)\<close> give the two regions
  \<open>(10, 20)\<close> and \<open>(20, 30)\<close>.
\<close>

theorem merged_regions_in_order:
  "sorted (map fst (merged_regions coords_list)) \<and>
   (\<forall>i. Suc i < length (merged_regions coords_list) \<longrightarrow>
      snd (merged_regions coords_list ! i) \<le> fst (merged_regions coords_list ! Suc i)) \<and>
   (\<forall>r\<in>set (merged_regions coords_list). fst r < snd r) \<and>
   merged_regions [(10, 20), (20, 30)] = [(10, 20), (20, 30)]"
proof -
  have ok: "regions_ok (merged_regions coords_list)"
    unfolding merged_regions_def by (rule contig_coverage_coords_ok)
  have "merged_regions [(10, 20), (20, 30)] = [(10, 20), (20, 30)]" by code_simp
  with ok show ?thesis
    using regions_ok_sorted[OF ok] regions_ok_nth[OF ok] by (simp add: regions_ok_def)
qed

text \<open>The amended claim C1 on four intervals, two overlapping and two touching.\<close>

theorem merged_regions_in_order_witness:
  "length (merged_regions [(10, 20), (15, 30), (30, 40), (50, 60)]) = 3 \<and>
   sorted (map fst (merged_regions [(10, 20), (15, 30), (30, 40), (50, 60)])) \<and>
   snd (merged_regions [(10, 20), (15, 30), (30, 40), (50, 60)] ! 0)
     \<le> fst (merged_regions [(10, 20), (15, 30), (30, 40), (50, 60)] ! Suc 0) \<and>
   snd (merged_regions [(10, 20), (15, 30), (30, 40), (50, 60)] ! Suc 0)
     \<le> fst (merged_regions [(10, 20), (15, 30), (30, 40), (50, 60)] ! Suc (Suc 0))"
proof -
  have len: "length (merged_regions [(10, 20), (15, 30), (30, 40), (50, 60)]) = 3"
    by code_simp
  from merged_regions_in_order[of "[(10, 20), (15, 30), (30, 40), (50, 60)]"] len
  show ?thesis by simp
qed

text \<open>
  Claim C2: for every dictionary of input intervals and every sequence of it whose
  intervals all have \<open>start \<le> stop\<close>, the entry of that sequence in the result of
  the length aggregation, run on the regions the merger produces from the coverage points
  of the intervals, is the number of positions covered by at least one of its input
  intervals. The regions of the sequence in the merger's dictionary are its merged regions,
  and a missing entry reads as the empty list, or as the length 0.
\<close>

theorem covered_length_is_union_measure:
  assumes "distinct (map fst mapping_coords)"
    and "map_of mapping_coords seq_id = Some coords_list"
    and "\<forall>c\<in>set coords_list. fst c \<le> snd c"
  shows "dd_get (get_coverage_coords_from_coverage_points
                  (get_coverage_points_from_mapping_coords mapping_coords)) seq_id
           = merged_regions coords_list \<and>
         di_get (get_mapping_coverage_lengths_from_coverage_coords
                  (get_coverage_coords_from_coverage_points
                    (get_coverage_points_from_mapping_coords mapping_coords))) seq_id
           = int (card (covered_positions coords_list)) \<and>
         coverage_length (merged_regions coords_list) 0 = int (card (covered_positions coords_list))"
  using pipeline_regions[OF assms(1,2)] pipeline_lengths[OF assms(1,2)] merged_length_card[OF assms(3)]
  by simp

text \<open>Claim C2 on three sequences: 35 positions of \<open>a\<close> are covered, \<open>b\<close> has an
  empty interval only and gets no entry.\<close>

theorem covered_length_is_union_measure_witness:
  "get_mapping_coverage_lengths_from_coverage_coords
     (get_coverage_coords_from_coverage_points
       (get_coverage_points_from_mapping_coords
         [(''a'', [(10, 20), (15, 30), (30, 40), (50, 50), (60, 65)]), (''b'', [(7, 7)]), (''c'', [(0, 4)])]))
     = [(''a'', 35), (''c'', 4)] \<and>
   int (card (covered_positions [(10, 20), (15, 30), (30, 40), (50, 50), (60, 65)])) = 35"
proof -
  have d: "distinct (map fst [(''a'', [(10, 20), (15, 30), (30, 40), (50, 50), (60, 65 :: int)]),
                              (''b'', [(7, 7 :: int)]), (''c'', [(0, 4 :: int)])])"
    by simp
  have m: "map_of [(''a'', [(10, 20), (15, 30), (30, 40), (50, 50), (60, 65 :: int)]),
                   (''b'', [(7, 7 :: int)]), (''c'', [(0, 4 :: int)])] ''a''
             = Some [(10, 20), (15, 30), (30, 40), (50, 50), (60, 65)]"
    by simp
  have h: "\<forall>c\<in>set [(10, 20), (15, 30), (30, 40), (50, 50), (60, 65 :: int)]. fst c \<le> snd c"
    by simp
  have v: "get_mapping_coverage_lengths_from_coverage_coords
     (get_coverage_coords_from_coverage_points
       (get_coverage_points_from_mapping_coords
         [(''a'', [(10, 20), (15, 30), (30, 40), (50, 50), (60, 65)]), (''b'', [(7, 7)]), (''c'', [(0, 4)])]))
     = [(''a'', 35), (''c'', 4)]"
    by code_simp
  from covered_length_is_union_measure[OF d m h] v show ?thesis
    by (simp add: di_get_def)
qed

section \<open>The gaps between the covered regions\<close>

lemma interior_gaps_eq:
  "interior_gaps idxs L rs C M poor =
     poor @ filter (\<lambda>g. M \<le> region_length g)
              (map (\<lambda>i. interior_candidate L (rs ! i) (rs ! Suc i) C) idxs)"
  by (induction idxs arbitrary: poor)
     (auto simp: Let_def interior_candidate_def region_length_def max_def min_def)

lemma py_index_first: "rs \<noteq> [] \<Longrightarrow> py_index rs 0 = Inr (hd rs)"
  by (cases rs) (auto simp: py_index_def)

lemma py_index_last: "rs \<noteq> [] \<Longrightarrow> py_index rs (- 1) = Inr (last rs)"
  by (cases rs rule: rev_cases) (auto simp: py_index_def nth_append)

lemma leading_gap_eq:
  "leading_gap L r C M =
     (if fst r > 0 \<and> M \<le> region_length (leading_candidate L r C)
      then [leading_candidate L r C] else [])"
  by (auto simp: leading_gap_def leading_candidate_def region_length_def Let_def min_def)

lemma trailing_gap_eq:
  "trailing_gap L r C M =
     (if snd r < L \<and> M \<le> region_length (trailing_candidate L r C)
      then [trailing_candidate L r C] else [])"
  by (auto simp: trailing_gap_def trailing_candidate_def region_length_def Let_def max_def)

lemma contig_poor_coords_eq:
  "rs \<noteq> [] \<Longrightarrow> contig_poor_coords L rs C M = Inr (expected_gaps L rs C M)"
  by (simp add: contig_poor_coords_def err_bind_def py_index_first py_index_last
        interior_gaps_eq leading_gap_eq trailing_gap_eq expected_gaps_def)

lemma contig_poor_coords_empty: "contig_poor_coords L [] C M = Inl IndexError"
  by (simp add: contig_poor_coords_def err_bind_def py_index_def)

lemma map_of_dd_append: "map_of (dd_append d k v) = (map_of d)(k \<mapsto> dd_get d k @ [v])"
  by (induction d) (auto simp: dd_get_def fun_eq_iff)

lemma dd_get_append: "dd_get (dd_append d k v) c = (if c = k then dd_get d k @ [v] else dd_get d c)"
  by (simp add: dd_get_def map_of_dd_append)

lemma dd_get_fold_append:
  "dd_get (fold (\<lambda>g d. dd_append d k g) gs d) c = (if c = k then dd_get d k @ gs else dd_get d c)"
  by (induction gs arbitrary: d) (auto simp: dd_get_append)

lemma keys_dd_append: "fst ` set (dd_append d k v) = insert k (fst ` set d)"
  by (simp add: dom_map_of_conv_image_fst[symmetric] map_of_dd_append)

lemma keys_fold_append: "fst ` set (fold (\<lambda>g d. dd_append d k g) gs d) \<subseteq> insert k (fst ` set d)"
proof (induction gs arbitrary: d)
  case Nil
  then show ?case by auto
next
  case (Cons g gs)
  have "fst ` set (fold (\<lambda>g d. dd_append d k g) gs (dd_append d k g))
          \<subseteq> insert k (fst ` set (dd_append d k g))"
    by (rule Cons.IH)
  then show ?case by (simp add: keys_dd_append)
qed

lemma poor_coords_loop_result:
  "poor_coords_loop cl cov C M poor = Inr out \<Longrightarrow> distinct (map fst cl) \<Longrightarrow>
   dd_get out c = dd_get poor c @ expected_poor_coords cl cov C M c"
proof (induction cl arbitrary: poor)
  case Nil
  then show ?case by (simp add: expected_poor_coords_def)
next
  case (Cons e cl)
  obtain k L where e: "e = (k, L)" by (cases e)
  from Cons.prems(2) have d: "distinct (map fst cl)" and nk: "map_of cl k = None"
    by (auto simp: e map_of_eq_None_iff)
  show ?case
  proof (cases "map_of cov k")
    case None
    with Cons.prems(1) have "poor_coords_loop cl cov C M (dd_append poor k (0, L)) = Inr out"
      by (simp add: e)
    from Cons.IH[OF this d] show ?thesis
      using None nk by (auto simp: dd_get_append expected_poor_coords_def e)
  next
    case (Some rs)
    show ?thesis
    proof (cases "rs = []")
      case True
      with Cons.prems(1) Some show ?thesis
        by (simp add: e contig_poor_coords_empty err_bind_def)
    next
      case False
      with Cons.prems(1) Some
      have "poor_coords_loop cl cov C M (fold (\<lambda>g d. dd_append d k g) (expected_gaps L rs C M) poor) = Inr out"
        by (simp add: e contig_poor_coords_eq err_bind_def)
      from Cons.IH[OF this d] show ?thesis
        using Some nk by (auto simp: dd_get_fold_append expected_poor_coords_def e)
    qed
  qed
qed

lemma poor_coords_loop_keys:
  "poor_coords_loop cl cov C M poor = Inr out \<Longrightarrow> fst ` set out \<subseteq> fst ` set poor \<union> fst ` set cl"
proof (induction cl arbitrary: poor)
  case Nil
  then show ?case by simp
next
  case (Cons e cl)
  obtain k L where e: "e = (k, L)" by (cases e)
  show ?case
  proof (cases "map_of cov k")
    case None
    with Cons.prems have "poor_coords_loop cl cov C M (dd_append poor k (0, L)) = Inr out"
      by (simp add: e)
    from Cons.IH[OF this] show ?thesis by (auto simp: keys_dd_append e)
  next
    case (Some rs)
    with Cons.prems obtain new where
      "poor_coords_loop cl cov C M (fold (\<lambda>g d. dd_append d k g) new poor) = Inr out"
      by (auto simp: e err_bind_def split: sum.splits)
    from Cons.IH[OF this] keys_fold_append[of k new poor] show ?thesis
      by (auto simp: e)
  qed
qed

lemma poor_coords_loop_succeeds:
  "\<forall>e\<in>set cl. map_of cov (fst e) \<noteq> Some [] \<Longrightarrow> \<exists>out. poor_coords_loop cl cov C M poor = Inr out"
proof (induction cl arbitrary: poor)
  case Nil
  then show ?case by simp
next
  case (Cons e cl)
  obtain k L where e: "e = (k, L)" by (cases e)
  from Cons.prems have rest: "\<forall>e\<in>set cl. map_of cov (fst e) \<noteq> Some []" by simp
  show ?case
  proof (cases "map_of cov k")
    case None
    with Cons.IH[OF rest] show ?thesis by (simp add: e)
  next
    case (Some rs)
    with Cons.prems have "rs \<noteq> []" by (auto simp: e)
    with Some Cons.IH[OF rest] show ?thesis
      by (simp add: e contig_poor_coords_eq err_bind_def)
  qed
qed

lemma map_of_filter_other: "k \<noteq> c \<Longrightarrow> map_of (filter (\<lambda>e. fst e \<noteq> c) d) k = map_of d k"
  by (induction d) auto

lemma poor_coords_loop_ignores:
  "c \<notin> fst ` set cl \<Longrightarrow>
   poor_coords_loop cl (filter (\<lambda>e. fst e \<noteq> c) cov) C M poor = poor_coords_loop cl cov C M poor"
proof (induction cl arbitrary: poor)
  case Nil
  then show ?case by simp
next
  case (Cons e cl)
  obtain k L where e: "e = (k, L)" by (cases e)
  from Cons.prems have kc: "k \<noteq> c" and rest: "c \<notin> fst ` set cl" by (auto simp: e)
  show ?case
    by (simp add: e map_of_filter_other[OF kc] Cons.IH[OF rest] cong: option.case_cong)
qed

lemma expected_gaps_length: "g \<in> set (expected_gaps L rs C M) \<Longrightarrow> M \<le> region_length g"
  by (auto simp: expected_gaps_def split: if_splits)

lemma coverage_coords_nonempty:
  "(k, rs) \<in> set (get_coverage_coords_from_coverage_points d) \<Longrightarrow> rs \<noteq> []"
  by (induction d) (auto split: list.splits)

lemma map_fst_dd_append:
  "map fst (dd_append d k v) = (if k \<in> fst ` set d then map fst d else map fst d @ [k])"
  by (induction d) force+

lemma distinct_dd_append: "distinct (map fst d) \<Longrightarrow> distinct (map fst (dd_append d k v))"
  by (simp add: map_fst_dd_append)

lemma distinct_fold_append:
  "distinct (map fst d) \<Longrightarrow> distinct (map fst (fold (\<lambda>g d. dd_append d k g) gs d))"
  by (induction gs arbitrary: d) (simp_all add: distinct_dd_append)

lemma poor_coords_loop_distinct:
  "poor_coords_loop cl cov C M poor = Inr out \<Longrightarrow> distinct (map fst poor) \<Longrightarrow> distinct (map fst out)"
proof (induction cl arbitrary: poor)
  case Nil
  then show ?case by simp
next
  case (Cons e cl)
  obtain k L where e: "e = (k, L)" by (cases e)
  show ?case
  proof (cases "map_of cov k")
    case None
    with Cons.prems(1) have "poor_coords_loop cl cov C M (dd_append poor k (0, L)) = Inr out"
      by (simp add: e)
    from Cons.IH[OF this distinct_dd_append[OF Cons.prems(2)]] show ?thesis .
  next
    case (Some rs)
    with Cons.prems(1) obtain new where
      "poor_coords_loop cl cov C M (fold (\<lambda>g d. dd_append d k g) new poor) = Inr out"
      by (auto simp: e err_bind_def split: sum.splits)
    from Cons.IH[OF this distinct_fold_append[OF Cons.prems(2)]] show ?thesis .
  qed
qed

lemma get_poor_result:
  assumes "get_poor_mapping_coverage_coordinates cl cov C M = Inr out" and "distinct (map fst cl)"
  shows "dd_get out c = expected_poor_coords cl cov C M c"
  using poor_coords_loop_result[of cl cov C M "[]" out c] assms
  by (simp add: get_poor_mapping_coverage_coordinates_def dd_get_def)

lemma get_poor_succeeds:
  "\<forall>e\<in>set cl. map_of cov (fst e) \<noteq> Some [] \<Longrightarrow>
   \<exists>out. get_poor_mapping_coverage_coordinates cl cov C M = Inr out"
  unfolding get_poor_mapping_coverage_coordinates_def by (rule poor_coords_loop_succeeds)

lemma get_poor_entry:
  assumes "get_poor_mapping_coverage_coordinates cl cov C M = Inr out" and "(c, gs) \<in> set out"
  shows "dd_get out c = gs"
proof -
  have "distinct (map fst out)"
    using poor_coords_loop_distinct[of cl cov C M "[]" out] assms(1)
    by (simp add: get_poor_mapping_coverage_coordinates_def)
  with assms(2) have "map_of out c = Some gs" by simp
  then show ?thesis by (simp add: dd_get_def)
qed

section \<open>Claims on the poorly covered regions\<close>

text \<open>
  Claim C3: for a sequence of length \<open>L\<close> with at least one covered region, the gap
  extractor emits exactly the leading candidate \<open>(0, min (R_0.start + C) L)\<close> when
  \<open>R_0.start > 0\<close> and its length is at least \<open>M\<close>, the interior candidates
  \<open>(max (R_i.stop - C) 0, min (R_{i+1}.start + C) L)\<close> of length at least \<open>M\<close>, and
  the trailing candidate \<open>(max (R_{n-1}.stop - C) 0, L)\<close> when \<open>R_{n-1}.stop < L\<close> and
  its length is at least \<open>M\<close>, in this order and nothing else. The length table is a
  dictionary (distinct keys), and no sequence in it has an empty region list, which the
  merger never produces and on which the code raises \<open>IndexError\<close>.
\<close>

theorem gaps_of_covered_sequence:
  assumes "distinct (map fst contig_lengths)"
    and "map_of contig_lengths c = Some L"
    and "map_of mapping_coverage_coords c = Some rs" and "rs \<noteq> []"
    and "\<forall>e\<in>set contig_lengths. map_of mapping_coverage_coords (fst e) \<noteq> Some []"
  shows "\<exists>out. get_poor_mapping_coverage_coordinates contig_lengths mapping_coverage_coords C M = Inr out
           \<and> dd_get out c = expected_gaps L rs C M"
proof -
  from get_poor_succeeds[OF assms(5)] obtain out where
    out: "get_poor_mapping_coverage_coordinates contig_lengths mapping_coverage_coords C M = Inr out"
    by blast
  from get_poor_result[OF out assms(1), of c] assms(2,3)
  have "dd_get out c = expected_gaps L rs C M" by (simp add: expected_poor_coords_def)
  with out show ?thesis by blast
qed

text \<open>Claim C3 on the scenario of the specification: length 1000, regions \<open>(100, 350)\<close>
  and \<open>(500, 600)\<close>, context 50, threshold 100.\<close>

theorem gaps_of_covered_sequence_witness:
  "expected_gaps 1000 [(100, 350), (500, 600)] 50 100 = [(0, 150), (300, 550), (550, 1000)] \<and>
   (\<exists>out. get_poor_mapping_coverage_coordinates [(''a'', 1000), (''b'', 70)]
            [(''a'', [(100, 350), (500, 600)])] 50 100 = Inr out
          \<and> dd_get out ''a'' = [(0, 150), (300, 550), (550, 1000)])"
proof -
  have v: "expected_gaps 1000 [(100, 350), (500, 600)] 50 100 = [(0, 150), (300, 550), (550, 1000)]"
    by code_simp
  have "\<exists>out. get_poor_mapping_coverage_coordinates [(''a'', 1000), (''b'', 70)]
            [(''a'', [(100, 350), (500, 600)])] 50 100 = Inr out
          \<and> dd_get out ''a'' = expected_gaps 1000 [(100, 350), (500, 600)] 50 100"
    by (rule gaps_of_covered_sequence) simp_all
  with v show ?thesis by simp
qed

text \<open>
  Claim C4: a sequence of the length table, of length \<open>L\<close>, that is not a key of the
  covered regions gets exactly the one gap \<open>(0, L)\<close>, whatever the threshold and the
  context are.
\<close>

theorem uncovered_sequence_whole_gap:
  assumes "distinct (map fst contig_lengths)"
    and "map_of contig_lengths c = Some L"
    and "map_of mapping_coverage_coords c = None"
    and "\<forall>e\<in>set contig_lengths. map_of mapping_coverage_coords (fst e) \<noteq> Some []"
  shows "\<exists>out. get_poor_mapping_coverage_coordinates contig_lengths mapping_coverage_coords C M = Inr out
           \<and> map_of out c = Some [(0, L)]"
proof -
  from get_poor_succeeds[OF assms(4)] obtain out where
    out: "get_poor_mapping_coverage_coordinates contig_lengths mapping_coverage_coords C M = Inr out"
    by blast
  from get_poor_result[OF out assms(1), of c] assms(2,3)
  have "dd_get out c = [(0, L)]" by (simp add: expected_poor_coords_def)
  then have "map_of out c = Some [(0, L)]" by (simp add: dd_get_def split: option.splits)
  with out show ?thesis by blast
qed

text \<open>Claim C4 on a sequence of length 70 under a threshold of 100.\<close>

theorem uncovered_sequence_whole_gap_witness:
  "\<exists>out. get_poor_mapping_coverage_coordinates [(''a'', 1000), (''b'', 70)]
            [(''a'', [(100, 350), (500, 600)])] 50 100 = Inr out
          \<and> map_of out ''b'' = Some [(0, 70)]"
  by (rule uncovered_sequence_whole_gap) simp_all

text \<open>
  Claim C5, as stated, fails twice: the whole-sequence gap \<open>(0, 5)\<close> of an uncovered
  sequence is returned under a threshold of 100, and under a negative threshold a region
  with \<open>start > stop\<close> is returned, here \<open>(50, 10)\<close> between two overlapping regions.
\<close>

theorem gap_threshold_counterexample:
  "get_poor_mapping_coverage_coordinates [(''c'', 5)] [] 0 100 = Inr [(''c'', [(0, 5)])] \<and>
   get_poor_mapping_coverage_coordinates [(''a'', 100)] [(''a'', [(0, 50), (10, 60)])] 0 (- 100)
     = Inr [(''a'', [(50, 10), (60, 100)])]"
  by code_simp

text \<open>
  Claim C5, amended: every region returned for a sequence that has covered regions has
  length at least \<open>minimum_size_remap\<close>; the only region returned for a sequence
  without covered regions is \<open>(0, L)\<close>, whatever the threshold is; and when the
  threshold and the lengths of the table are not negative, every returned region has
  \<open>start \<le> stop\<close>.
\<close>

theorem returned_gaps_sizes:
  assumes "distinct (map fst contig_lengths)"
    and "get_poor_mapping_coverage_coordinates contig_lengths mapping_coverage_coords C M = Inr out"
    and "(c, gs) \<in> set out" and "g \<in> set gs"
  shows "(map_of mapping_coverage_coords c \<noteq> None \<longrightarrow> M \<le> snd g - fst g) \<and>
         (map_of mapping_coverage_coords c = None \<longrightarrow> (\<exists>L. map_of contig_lengths c = Some L \<and> g = (0, L))) \<and>
         (0 \<le> M \<and> (\<forall>e\<in>set contig_lengths. 0 \<le> snd e) \<longrightarrow> fst g \<le> snd g)"
proof -
  have gs: "gs = expected_poor_coords contig_lengths mapping_coverage_coords C M c"
    using get_poor_entry[OF assms(2,3)] get_poor_result[OF assms(2,1), of c] by simp
  show ?thesis
  proof (cases "map_of contig_lengths c")
    case None
    with gs assms(4) show ?thesis by (simp add: expected_poor_coords_def)
  next
    case L: (Some L)
    then have Lin: "(c, L) \<in> set contig_lengths" by (rule map_of_SomeD)
    show ?thesis
    proof (cases "map_of mapping_coverage_coords c")
      case None
      with gs L assms(4) have "g = (0, L)" by (simp add: expected_poor_coords_def)
      with None L Lin show ?thesis by auto
    next
      case (Some rs)
      with gs L assms(4) have "g \<in> set (expected_gaps L rs C M)"
        by (simp add: expected_poor_coords_def)
      from expected_gaps_length[OF this] Some show ?thesis
        by (auto simp: region_length_def)
    qed
  qed
qed

text \<open>The amended claim C5 on the interior gap \<open>(300, 550)\<close> of the scenario above.\<close>

theorem returned_gaps_sizes_witness:
  "get_poor_mapping_coverage_coordinates [(''a'', 1000), (''b'', 70)]
       [(''a'', [(100, 350), (500, 600)])] 50 100
     = Inr [(''a'', [(0, 150), (300, 550), (550, 1000)]), (''b'', [(0, 70)])] \<and>
   (100 :: int) \<le> snd (300 :: int, 550 :: int) - fst (300 :: int, 550 :: int) \<and>
   fst (300 :: int, 550 :: int) \<le> snd (300 :: int, 550 :: int)"
proof -
  have r: "get_poor_mapping_coverage_coordinates [(''a'', 1000), (''b'', 70)]
            [(''a'', [(100, 350), (500, 600)])] 50 100
          = Inr [(''a'', [(0, 150), (300, 550), (550, 1000)]), (''b'', [(0, 70)])]"
    by code_simp
  have d: "distinct (map fst [(''a'', 1000 :: int), (''b'', 70)])" by simp
  have m: "(''a'', [(0, 150), (300, 550), (550, 1000)])
             \<in> set [(''a'', [(0, 150), (300, 550), (550, 1000 :: int)]), (''b'', [(0 :: int, 70)])]"
    by simp
  have g: "(300, 550) \<in> set [(0, 150), (300, 550), (550, 1000 :: int)]" by simp
  from returned_gaps_sizes[OF d r m g] r show ?thesis by simp
qed

text \<open>
  Claim C8, as stated, fails: sequence \<open>b\<close> has a covered region and no length, and the
  extraction returns normally, with no entry for \<open>b\<close>. The loop runs over the keys of
  the length table only, and no error of that kind exists in the code.
\<close>

theorem missing_length_counterexample:
  "get_poor_mapping_coverage_coordinates [(''a'', 10)] [(''b'', [(0, 5)])] 0 0
     = Inr [(''a'', [(0, 10)])]"
  by code_simp

text \<open>
  Claim C8, amended: a sequence with no entry in the length table is skipped. The
  extraction returns normally, its result has no entry for that sequence, and it is the
  result obtained without the covered regions of that sequence.
\<close>

theorem sequence_without_length_skipped:
  assumes "c \<notin> fst ` set contig_lengths"
    and "\<forall>e\<in>set contig_lengths. map_of mapping_coverage_coords (fst e) \<noteq> Some []"
  shows "\<exists>out. get_poor_mapping_coverage_coordinates contig_lengths mapping_coverage_coords C M = Inr out
           \<and> map_of out c = None
           \<and> get_poor_mapping_coverage_coordinates contig_lengths
                (filter (\<lambda>e. fst e \<noteq> c) mapping_coverage_coords) C M = Inr out"
proof -
  from get_poor_succeeds[OF assms(2)] obtain out where
    out: "get_poor_mapping_coverage_coordinates contig_lengths mapping_coverage_coords C M = Inr out"
    by blast
  have "fst ` set out \<subseteq> fst ` set contig_lengths"
    using poor_coords_loop_keys[of contig_lengths mapping_coverage_coords C M "[]" out] out
    by (simp add: get_poor_mapping_coverage_coordinates_def)
  with assms(1) have "c \<notin> fst ` set out" by blast
  then have "map_of out c = None" by (simp add: map_of_eq_None_iff)
  moreover have "get_poor_mapping_coverage_coordinates contig_lengths
                (filter (\<lambda>e. fst e \<noteq> c) mapping_coverage_coords) C M = Inr out"
    using poor_coords_loop_ignores[OF assms(1)] out
    by (simp add: get_poor_mapping_coverage_coordinates_def)
  ultimately show ?thesis using out by blast
qed

text \<open>The amended claim C8 on the sequence \<open>b\<close> above.\<close>

theorem sequence_without_length_skipped_witness:
  "\<exists>out. get_poor_mapping_coverage_coordinates [(''a'', 10)] [(''b'', [(0, 5)])] 0 0 = Inr out
           \<and> map_of out ''b'' = None
           \<and> get_poor_mapping_coverage_coordinates [(''a'', 10)]
                (filter (\<lambda>e. fst e \<noteq> ''b'') [(''b'', [(0, 5)])]) 0 0 = Inr out"
  by (rule sequence_without_length_skipped) simp_all

section \<open>The positions of the regions\<close>

lemma region_positions_append:
  "region_positions (rs @ [r]) = region_positions rs \<union> {fst r ..< snd r}"
  by (auto simp: region_positions_def)

lemma open_set_split:
  assumes "\<forall>e\<in>set ps. p \<le> fst e" and "cur \<le> p"
  shows "{x. cur \<le> x \<and> x < last (cur # map fst ((p, b) # ps)) \<and> 1 \<le> k + depth ((p, b) # ps) x}
       = (if 1 \<le> k then {cur..<p} else {})
         \<union> {x. p \<le> x \<and> x < last (p # map fst ps) \<and> 1 \<le> (if b then k + 1 else k - 1) + depth ps x}"
proof -
  have pl: "p \<le> last (p # map fst ps)" using assms(1) by (cases ps rule: rev_cases) auto
  have below: "depth ((p, b) # ps) x = 0" if "x < p" for x
    using that assms(1) by (intro depth_below) auto
  have above: "k + depth ((p, b) # ps) x = (if b then k + 1 else k - 1) + depth ps x" if "p \<le> x" for x
    using that by (simp add: depth_Cons step_of_def)
  show ?thesis
  proof (rule set_eqI)
    fix x
    show "x \<in> {x. cur \<le> x \<and> x < last (cur # map fst ((p, b) # ps)) \<and> 1 \<le> k + depth ((p, b) # ps) x}
       \<longleftrightarrow> x \<in> (if 1 \<le> k then {cur..<p} else {})
         \<union> {x. p \<le> x \<and> x < last (p # map fst ps) \<and> 1 \<le> (if b then k + 1 else k - 1) + depth ps x}"
    proof (cases "x < p")
      case True
      then show ?thesis using below[OF True] pl by auto
    next
      case False
      then have "p \<le> x" by simp
      from above[OF this] False assms(2) show ?thesis by auto
    qed
  qed
qed

lemma sweep_positions:
  "sorted (map fst ps) \<Longrightarrow> \<forall>e\<in>set ps. cur \<le> fst e \<Longrightarrow> k + net ps \<le> 0 \<Longrightarrow> (1 \<le> k \<longrightarrow> s \<le> cur) \<Longrightarrow>
   region_positions (sweep ps k (s, t) acc) =
     region_positions acc \<union> (if 1 \<le> k then {s..<cur} else {})
       \<union> {x. cur \<le> x \<and> x < last (cur # map fst ps) \<and> 1 \<le> k + depth ps x}"
proof (induction ps arbitrary: k s t acc cur)
  case Nil
  then show ?case by (auto simp: net_def)
next
  case (Cons e ps)
  obtain p b where e: "e = (p, b)" by (cases e)
  from Cons.prems have srt: "sorted (map fst ps)" and ge: "\<forall>e\<in>set ps. p \<le> fst e" and cp: "cur \<le> p"
    by (auto simp: e)
  note split = open_set_split[OF ge cp, of b k]
  let ?S2 = "\<lambda>k'. {x. p \<le> x \<and> x < last (p # map fst ps) \<and> 1 \<le> k' + depth ps x}"
  show ?case
  proof (cases b)
    case True
    from Cons.prems(3) have n: "(k + 1) + net ps \<le> 0" by (simp add: net_def e True step_of_def)
    have s': "1 \<le> k + 1 \<longrightarrow> (if k + 1 = 1 then p else s) \<le> p" using Cons.prems(4) cp by auto
    have "region_positions (sweep ps (k + 1) (if k + 1 = 1 then p else s, if k \<noteq> 0 then p else t) acc) =
          region_positions acc \<union> (if 1 \<le> k + 1 then {(if k + 1 = 1 then p else s)..<p} else {}) \<union> ?S2 (k + 1)"
      by (rule Cons.IH[OF srt ge n s'])
    moreover have "(if 1 \<le> k + 1 then {(if k + 1 = 1 then p else s)..<p} else {})
        = (if 1 \<le> k then {s..<cur} else {}) \<union> (if 1 \<le> k then {cur..<p} else {})"
      using Cons.prems(4) cp by auto
    ultimately show ?thesis unfolding e split using True
      by (simp add: Let_def Un_assoc)
  next
    case False
    from Cons.prems(3) have n: "(k - 1) + net ps \<le> 0" by (simp add: net_def e False step_of_def)
    have s': "1 \<le> k - 1 \<longrightarrow> s \<le> p" using Cons.prems(4) cp by auto
    show ?thesis
    proof (cases "k - 1 = 0")
      case k: True
      have "region_positions (sweep ps (k - 1) (s, p) (acc @ [(s, p)])) =
          region_positions (acc @ [(s, p)]) \<union> (if 1 \<le> k - 1 then {s..<p} else {}) \<union> ?S2 (k - 1)"
        by (rule Cons.IH[OF srt ge n s'])
      moreover have "{s..<p} = {s..<cur} \<union> {cur..<p}" using Cons.prems(4) cp k by auto
      ultimately show ?thesis unfolding e split using False k
        by (simp add: Let_def region_positions_append Un_assoc)
    next
      case k: False
      have "region_positions (sweep ps (k - 1) (s, if k \<noteq> 0 then p else t) acc) =
          region_positions acc \<union> (if 1 \<le> k - 1 then {s..<p} else {}) \<union> ?S2 (k - 1)"
        by (rule Cons.IH[OF srt ge n s'])
      moreover have "(if 1 \<le> k - 1 then {s..<p} else {})
        = (if 1 \<le> k then {s..<cur} else {}) \<union> (if 1 \<le> k then {cur..<p} else {})"
        using Cons.prems(4) cp k by auto
      ultimately show ?thesis unfolding e split using False k
        by (simp add: Let_def Un_assoc)
    qed
  qed
qed

lemma open_set_all:
  assumes srt: "sorted (map fst (e # es))" and n0: "net (e # es) = 0"
  shows "{x. fst e \<le> x \<and> x < last (fst e # map fst (e # es)) \<and> 1 \<le> 0 + depth (e # es) x}
           = {x. 1 \<le> depth (e # es) x}"
proof (rule set_eqI)
  fix x
  from srt have ge: "\<forall>e'\<in>set (e # es). fst e \<le> fst e'" by auto
  have le: "\<forall>e'\<in>set (e # es). fst e' \<le> last (map fst (e # es))"
    using sorted_le_last[OF srt] by simp
  have "depth (e # es) x = 0" if "x < fst e"
    using that ge by (intro depth_below) auto
  moreover have "depth (e # es) x = 0" if "last (map fst (e # es)) \<le> x"
    using depth_above[of "e # es" x] le that n0 by fastforce
  ultimately show "x \<in> {x. fst e \<le> x \<and> x < last (fst e # map fst (e # es)) \<and> 1 \<le> 0 + depth (e # es) x}
      \<longleftrightarrow> x \<in> {x. 1 \<le> depth (e # es) x}"
    by (cases "x < fst e"; cases "last (map fst (e # es)) \<le> x") auto
qed

lemma contig_positions:
  assumes "net pts = 0"
  shows "region_positions (contig_coverage_coords pts) = {x. 1 \<le> depth pts x}"
proof (cases "sort pts")
  case Nil
  then have "pts = []" by (metis length_sort length_0_conv)
  then show ?thesis by (simp add: contig_coverage_coords_def depth_def region_positions_def)
next
  case (Cons e es)
  let ?ps = "e # es"
  have srt: "sorted (map fst ?ps)" using sorted_sort[of pts] Cons sorted_points_fst by metis
  then have ge: "\<forall>e'\<in>set ?ps. fst e \<le> fst e'" by auto
  have n0: "net ?ps = 0" using net_sort[of pts] Cons assms by simp
  have d: "depth ?ps x = depth pts x" for x using depth_sort[of pts x] Cons by simp
  have "region_positions (sweep ?ps 0 (0, 0) []) =
          region_positions [] \<union> (if 1 \<le> (0::int) then {0..<fst e} else {})
          \<union> {x. fst e \<le> x \<and> x < last (fst e # map fst ?ps) \<and> 1 \<le> 0 + depth ?ps x}"
    by (rule sweep_positions[OF srt ge]) (simp_all add: n0)
  then show ?thesis
    unfolding open_set_all[OF srt n0] by (simp add: contig_coverage_coords_def Cons d region_positions_def)
qed

lemma depth_zero_length:
  "depth (coverage_points (a @ (p, p) # b)) x = depth (coverage_points (a @ b)) x"
  by (simp add: depth_coverage_points)

lemma merged_positions_covered:
  "\<forall>c\<in>set ivs. fst c \<le> snd c \<Longrightarrow> region_positions (merged_regions ivs) = covered_positions ivs"
  by (simp add: merged_regions_def contig_positions net_coverage_points depth_covered)

section \<open>Claim on intervals of length zero\<close>

text \<open>
  Claim C9, as stated, fails: with the interval \<open>(5, 5)\<close> added to the input
  \<open>(0, 10)\<close> the merger returns \<open>(0, 5)\<close> and \<open>(5, 10)\<close> instead of \<open>(0, 10)\<close>.
  The stop point of the empty interval closes the open region at 5 and its start point
  opens a new one.
\<close>

theorem empty_interval_splits_region:
  "merged_regions ([(0, 10)] @ [(5, 5)]) \<noteq> merged_regions [(0, 10)]"
proof -
  have "merged_regions ([(0, 10)] @ [(5, 5)]) = [(0, 5), (5, 10)]" by code_simp
  moreover have "merged_regions [(0, 10)] = [(0, 10)]" by code_simp
  ultimately show ?thesis by simp
qed

text \<open>
  Claim C9, amended: an interval of length zero contributes no coverage. Adding
  \<open>(p, p)\<close> anywhere in the input of a sequence leaves the set of positions of the
  merged regions and their total length unchanged. (The region list itself can change: a
  region with \<open>p\<close> inside can be cut in two at \<open>p\<close>.)
\<close>

theorem empty_interval_adds_no_coverage:
  "region_positions (merged_regions (a @ (p, p) # b)) = region_positions (merged_regions (a @ b)) \<and>
   coverage_length (merged_regions (a @ (p, p) # b)) 0 = coverage_length (merged_regions (a @ b)) 0"
  by (simp add: merged_regions_def contig_positions contig_length_card net_coverage_points
        depth_zero_length)

section \<open>Strings: indexing, splitting, numerals\<close>

subsection \<open>Indexing\<close>

lemma py_index_nat: "py_index xs (int n) = (if n < length xs then Inr (xs ! n) else Inl IndexError)"
  by (simp add: py_index_def)

lemma py_index_0: "py_index xs 0 = (if xs = [] then Inl IndexError else Inr (hd xs))"
  by (cases xs) (simp_all add: py_index_def)

subsection \<open>Splitting at a separator\<close>


lemma split_from_absent:
  "c \<in> set sep \<Longrightarrow> c \<notin> set s \<Longrightarrow> split_from sep piece s = [piece @ s]"
proof (induction s arbitrary: piece)
  case Nil
  then show ?case by simp
next
  case (Cons x xs)
  from Cons.prems have "\<not> prefix sep (x # xs)"
    using set_mono_prefix[of sep "x # xs"] by auto
  with Cons show ?case by simp
qed

lemma split_from_char:
  "c \<notin> set a \<Longrightarrow> split_from [c] piece (a @ c # rest) = (piece @ a) # split_from [c] [] rest"
  by (induction a arbitrary: piece) auto

lemma split_from_hd:
  "\<exists>t ts. split_from sep piece s = (piece @ t) # ts \<and> set t \<subseteq> set s"
proof (induction sep piece s rule: split_from.induct)
  case (1 sep piece)
  then show ?case by simp
next
  case (2 sep piece c cs)
  show ?case
  proof (cases "sep \<noteq> [] \<and> prefix sep (c # cs)")
    case True
    then show ?thesis by auto
  next
    case False
    with "2.IH"(2) obtain t ts where "split_from sep (piece @ [c]) cs = ((piece @ [c]) @ t) # ts"
      and "set t \<subseteq> set cs" by blast
    with False show ?thesis by (intro exI[of _ "c # t"] exI[of _ ts]) auto
  qed
qed

lemma split_str_hd_nonempty:
  assumes "s \<noteq> []" and "\<not> prefix sep s"
  shows "hd (split_str sep s) \<noteq> []"
proof -
  obtain c cs where s: "s = c # cs" using assms(1) by (cases s) auto
  from split_from_hd[of sep "[c]" cs] obtain t ts where "split_from sep [c] cs = ([c] @ t) # ts"
    by blast
  with assms(2) s show ?thesis by (simp add: split_str_def)
qed

lemma split_str_hd_chars: "set (hd (split_str sep s)) \<subseteq> set s"
  using split_from_hd[of sep "[]" s] by (auto simp: split_str_def)

lemma split_str_nonempty: "split_str sep s \<noteq> []"
  using split_from_hd[of sep "[]" s] by (auto simp: split_str_def)



subsection \<open>Decimal numerals\<close>

lemma digit_char: "n < 10 \<Longrightarrow> is_digit (char_of (48 + n)) \<and> digit_of (char_of (48 + n)) = n"
  by (simp add: is_digit_def digit_of_def)

lemma str_nat_digits: "c \<in> set (str_nat n) \<Longrightarrow> is_digit c"
proof (induction n rule: str_nat.induct)
  case (1 n)
  show ?case
  proof (cases "n < 10")
    case True
    with "1.prems" show ?thesis by (subst (asm) str_nat.simps) (simp add: digit_char)
  next
    case False
    with "1.prems" "1.IH" show ?thesis
      by (subst (asm) str_nat.simps) (auto simp: digit_char)
  qed
qed

lemma str_nat_nonempty: "str_nat n \<noteq> []"
  by (subst str_nat.simps) simp





lemma digit_not_space: "is_digit c \<Longrightarrow> \<not> is_space c"
  by (auto simp: is_digit_def is_space_def)


lemma decimal_chars: "c \<in> set (decimal i) \<Longrightarrow> is_digit c \<or> c = CHR ''-''"
  by (auto simp: decimal_def dest: str_nat_digits split: if_splits)

lemma decimal_no_space: "c \<in> set (decimal i) \<Longrightarrow> \<not> is_space c"
  by (auto dest!: decimal_chars simp: digit_not_space) (simp add: is_space_def)

lemma decimal_nonempty: "decimal i \<noteq> []"
  by (simp add: decimal_def str_nat_nonempty)










lemma py_str_Inr: "py_str lim i = Inr t \<Longrightarrow> t = decimal i"
  by (auto simp: py_str_def split: if_splits)

subsection \<open>Splitting at white space\<close>

lemma split_ws_drop: "split_ws (dropWhile is_space s) = split_ws s"
  by (subst split_ws.simps, subst (2) split_ws.simps) simp

lemma split_ws_space:
  assumes "is_space c"
  shows "split_ws (c # s) = split_ws s"
proof -
  have "split_ws (c # s) = split_ws (dropWhile is_space (c # s))"
    by (rule split_ws_drop[symmetric])
  also have "dropWhile is_space (c # s) = dropWhile is_space s" using assms by simp
  also have "split_ws (dropWhile is_space s) = split_ws s" by (rule split_ws_drop)
  finally show ?thesis .
qed

lemma split_ws_Nil: "split_ws [] = []"
  by (subst split_ws.simps) simp

lemma split_ws_token:
  assumes "tok \<noteq> []" and "\<forall>c\<in>set tok. \<not> is_space c" and "is_space sp"
  shows "split_ws (tok @ sp # rest) = tok # split_ws rest"
proof -
  obtain t ts where tok: "tok = t # ts" using assms(1) by (cases tok) auto
  with assms(2) have t: "\<not> is_space t" by simp
  have tw: "takeWhile (\<lambda>x. \<not> is_space x) (tok @ sp # rest) = tok"
    using assms(2,3) by (simp add: takeWhile_tail)
  have dw: "dropWhile (\<lambda>x. \<not> is_space x) (tok @ sp # rest) = sp # rest"
    using assms(2,3) by (simp add: dropWhile_append3)
  have "split_ws (tok @ sp # rest) = tok # split_ws (sp # rest)"
    using t tw dw by (subst split_ws.simps) (simp add: tok)
  then show ?thesis by (simp add: split_ws_space assms(3))
qed

lemma split_ws_token_end:
  assumes "tok \<noteq> []" and "\<forall>c\<in>set tok. \<not> is_space c"
  shows "split_ws tok = [tok]"
proof -
  obtain t ts where tok: "tok = t # ts" using assms(1) by (cases tok) auto
  with assms(2) have t: "\<not> is_space t" and ts: "\<forall>c\<in>set ts. \<not> is_space c" by simp_all
  from ts have tw: "takeWhile (\<lambda>x. \<not> is_space x) ts = ts" by simp
  from ts have dw: "dropWhile (\<lambda>x. \<not> is_space x) ts = []" by simp
  show ?thesis using t by (subst split_ws.simps) (simp add: tok split_ws_Nil tw dw)
qed

lemma split_ws_unfold:
  "dropWhile is_space s = c # cs \<Longrightarrow>
   split_ws s = takeWhile (\<lambda>x. \<not> is_space x) (c # cs)
                  # split_ws (dropWhile (\<lambda>x. \<not> is_space x) (c # cs))"
  by (subst split_ws.simps) (simp only: list.case)

lemma split_ws_blank: "dropWhile is_space s = [] \<Longrightarrow> split_ws s = []"
  by (subst split_ws.simps) (simp only: list.case)

lemma split_ws_tokens: "tok \<in> set (split_ws s) \<Longrightarrow> tok \<noteq> [] \<and> (\<forall>c\<in>set tok. \<not> is_space c)"
proof (induction s rule: split_ws.induct)
  case (1 s)
  show ?case
  proof (cases "dropWhile is_space s")
    case Nil
    from "1.prems" show ?thesis unfolding split_ws_blank[OF Nil] by simp
  next
    case (Cons c cs)
    have c: "\<not> is_space c" using hd_dropWhile[of is_space s] Cons by simp
    from "1.prems" have "tok \<in> set (takeWhile (\<lambda>x. \<not> is_space x) (c # cs)
                  # split_ws (dropWhile (\<lambda>x. \<not> is_space x) (c # cs)))"
      unfolding split_ws_unfold[OF Cons] .
    then have "tok = takeWhile (\<lambda>x. \<not> is_space x) (c # cs)
        \<or> tok \<in> set (split_ws (dropWhile (\<lambda>x. \<not> is_space x) (c # cs)))"
      by (simp only: set_ConsD list.set insert_iff)
    then show ?thesis
    proof
      assume t: "tok = takeWhile (\<lambda>x. \<not> is_space x) (c # cs)"
      then have "tok = c # takeWhile (\<lambda>x. \<not> is_space x) cs" using c by simp
      then have "tok \<noteq> []" by simp
      moreover have "\<forall>x\<in>set tok. \<not> is_space x" unfolding t by (blast dest: set_takeWhileD)
      ultimately show ?thesis by blast
    next
      assume "tok \<in> set (split_ws (dropWhile (\<lambda>x. \<not> is_space x) (c # cs)))"
      then show ?thesis by (rule "1.IH"[OF Cons])
    qed
  qed
qed

lemma split_ws_join:
  "\<forall>tok\<in>set toks. tok \<noteq> [] \<and> (\<forall>c\<in>set tok. \<not> is_space c) \<Longrightarrow> is_space sp \<Longrightarrow> is_space nl \<Longrightarrow>
   split_ws (join_str [sp] toks @ [nl]) = toks"
proof (induction "[sp]" toks rule: join_str.induct)
  case 1
  then show ?case by (simp add: split_ws_space split_ws_Nil)
next
  case (2 x)
  then show ?case by (simp add: split_ws_token split_ws_Nil)
next
  case (3 x y parts)
  then show ?case by (simp add: split_ws_token)
qed

section \<open>Fragment names\<close>


lemma is_space_tab: "is_space (CHR 0x09)" and is_space_nl: "is_space (CHR 0x0A)"
  by (simp_all add: is_space_def)





section \<open>The lines of a mapping file\<close>




lemma relocate_file_Inr:
  "relocate_remapped_fragments_to_source_contigs lim lines = Inr outs \<Longrightarrow>
   length outs = length lines \<and> (\<forall>i<length lines. relocate_line lim (lines ! i) = Inr (outs ! i))"
proof (induction lines arbitrary: outs)
  case Nil
  then show ?case by simp
next
  case (Cons l lines)
  from Cons.prems obtain out outs' where l: "relocate_line lim l = Inr out"
    and r: "relocate_remapped_fragments_to_source_contigs lim lines = Inr outs'"
    and o: "outs = out # outs'"
    by (auto simp: err_bind_def split: sum.splits)
  from Cons.IH[OF r] l o show ?case by (auto simp: nth_Cons split: nat.splits)
qed

lemma relocate_file_total:
  "\<forall>l\<in>set lines. \<exists>out. relocate_line lim l = Inr out \<Longrightarrow>
   \<exists>outs. relocate_remapped_fragments_to_source_contigs lim lines = Inr outs"
  by (induction lines) (auto simp: err_bind_def)

section \<open>Claims on the relocation of fragments\<close>







section \<open>The fields of a relocated record\<close>

lemma py_index_Inr: "py_index xs (int n) = Inr x \<Longrightarrow> n < length xs \<and> x = xs ! n"
  by (auto simp: py_index_nat split: if_splits)

lemma err_bind_Inr: "err_bind r f = Inr y \<Longrightarrow> \<exists>v. r = Inr v \<and> f v = Inr y"
  by (cases r) (simp_all add: err_bind_def)

lemma relocate_line_fragment:
  assumes "split_ws line = parsed" and "parsed \<noteq> []" and "contains_str ''segment'' (hd parsed)"
    and "relocate_line lim line = Inr out"
  shows "4 \<le> length parsed \<and> (\<exists>m n. out =
     hd (split_str ''_segment_'' (hd parsed)) @ [CHR 0x09] @ parsed ! 1 @ [CHR 0x09] @ decimal m @ [CHR 0x09]
          @ decimal n @ [CHR 0x09] @ join_str [CHR 0x09] (drop 4 parsed) @ [CHR 0x0A])"
proof -
  have p0: "py_index parsed 0 = Inr (hd parsed)" using assms(2) by (simp add: py_index_0)
  have hd0: "py_index (split_str ''_segment_'' (hd parsed)) 0 = Inr (hd (split_str ''_segment_'' (hd parsed)))"
    by (simp add: py_index_0 split_str_nonempty)
  let ?new = "hd (split_str ''_segment_'' (hd parsed))"
  from assms(4) have "err_bind (segment_start_of lim (split_str ''_segment_'' (hd parsed))) (\<lambda>segment_start.
         err_bind (py_index parsed 2) (\<lambda>field2.
         err_bind (py_int lim field2) (\<lambda>local_start.
         err_bind (py_index parsed 3) (\<lambda>field3.
         err_bind (py_int lim field3) (\<lambda>local_stop.
         err_bind (py_index parsed 1) (\<lambda>field1.
         err_bind (py_str lim (segment_start + local_start)) (\<lambda>start_text.
         err_bind (py_str lim (segment_start + local_stop)) (\<lambda>stop_text.
             Inr (?new @ [CHR 0x09] @ field1 @ [CHR 0x09] @ start_text @ [CHR 0x09]
                  @ stop_text @ [CHR 0x09] @ join_str [CHR 0x09] (drop 4 parsed)
                  @ [CHR 0x0A]))))))))) = Inr out"
    by (simp only: relocate_line_def Let_def assms(1) p0 hd0 err_bind_def[of "Inr _"] sum.case
          assms(3) if_True)
  then obtain ss f2 a f3 b f1 st sp where
    "py_index parsed 3 = Inr f3" "py_index parsed 1 = Inr f1"
    "py_str lim (ss + a) = Inr st" "py_str lim (ss + b) = Inr sp"
    and o: "out = ?new @ [CHR 0x09] @ f1 @ [CHR 0x09] @ st @ [CHR 0x09]
                  @ sp @ [CHR 0x09] @ join_str [CHR 0x09] (drop 4 parsed) @ [CHR 0x0A]"
    by (fastforce dest!: err_bind_Inr)
  then have "3 < length parsed" "f1 = parsed ! 1" "st = decimal (ss + a)" "sp = decimal (ss + b)"
    using py_index_Inr[of parsed 3 f3] py_index_Inr[of parsed 1 f1] by (auto dest: py_str_Inr)
  with o show ?thesis by auto
qed

lemma split_char_join:
  "\<forall>t\<in>set toks. c \<notin> set t \<Longrightarrow> toks \<noteq> [] \<Longrightarrow> split_from [c] [] (join_str [c] toks) = toks"
proof (induction "[c]" toks rule: join_str.induct)
  case 1
  then show ?case by simp
next
  case (2 x)
  then show ?case using split_from_absent[of c "[c]" x "[]"] by simp
next
  case (3 x y parts)
  then have "split_from [c] [] (x @ c # join_str [c] (y # parts))
      = ([] @ x) # split_from [c] [] (join_str [c] (y # parts))"
    by (intro split_from_char) simp
  with 3 show ?case by simp
qed

lemma tab_fields:
  assumes "CHR 0x09 \<notin> set a" "CHR 0x09 \<notin> set b" "CHR 0x09 \<notin> set m" "CHR 0x09 \<notin> set n"
    and "\<forall>t\<in>set rest. CHR 0x09 \<notin> set t"
  shows "split_str [CHR 0x09]
           (butlast (a @ [CHR 0x09] @ b @ [CHR 0x09] @ m @ [CHR 0x09] @ n @ [CHR 0x09]
                     @ join_str [CHR 0x09] rest @ [CHR 0x0A]))
         = a # b # m # n # (if rest = [] then [[]] else rest)"
proof -
  have bl: "butlast (a @ [CHR 0x09] @ b @ [CHR 0x09] @ m @ [CHR 0x09] @ n @ [CHR 0x09]
                     @ join_str [CHR 0x09] rest @ [CHR 0x0A])
      = a @ CHR 0x09 # b @ CHR 0x09 # m @ CHR 0x09 # n @ CHR 0x09 # join_str [CHR 0x09] rest"
    by (simp add: butlast_append)
  have r: "split_from [CHR 0x09] [] (join_str [CHR 0x09] rest) = (if rest = [] then [[]] else rest)"
    using split_char_join[OF assms(5)] by simp
  have 4: "split_from [CHR 0x09] [] (n @ CHR 0x09 # join_str [CHR 0x09] rest)
      = ([] @ n) # split_from [CHR 0x09] [] (join_str [CHR 0x09] rest)"
    by (rule split_from_char[OF assms(4)])
  have 3: "split_from [CHR 0x09] [] (m @ CHR 0x09 # n @ CHR 0x09 # join_str [CHR 0x09] rest)
      = ([] @ m) # split_from [CHR 0x09] [] (n @ CHR 0x09 # join_str [CHR 0x09] rest)"
    by (rule split_from_char[OF assms(3)])
  have 2: "split_from [CHR 0x09] [] (b @ CHR 0x09 # m @ CHR 0x09 # n @ CHR 0x09 # join_str [CHR 0x09] rest)
      = ([] @ b) # split_from [CHR 0x09] [] (m @ CHR 0x09 # n @ CHR 0x09 # join_str [CHR 0x09] rest)"
    by (rule split_from_char[OF assms(2)])
  have 1: "split_from [CHR 0x09] [] (a @ CHR 0x09 # b @ CHR 0x09 # m @ CHR 0x09 # n @ CHR 0x09 # join_str [CHR 0x09] rest)
      = ([] @ a) # split_from [CHR 0x09] [] (b @ CHR 0x09 # m @ CHR 0x09 # n @ CHR 0x09 # join_str [CHR 0x09] rest)"
    by (rule split_from_char[OF assms(1)])
  show ?thesis unfolding split_str_def bl 1 2 3 4 r by simp
qed

text \<open>
  Claim C10: in a file whose records are all relocated without an exception, for every
  record treated as a fragment, the fields of the line written for it other than 0, 2 and
  3 are the fields of the record: read as tab-separated values, the line has field 1 of
  the record as its field 1 and, from index 4 on, the fields of the record from index 4
  on; and unless the subject begins with \<open>_segment_\<close> (an empty parent name, which
  leaves the line starting with a tab), the line split at white space, as the code splits
  its input, has as many fields as the record, with field 1 and the fields from index 4
  on unchanged.
\<close>

theorem relocated_fields_kept:
  assumes "i < length lines" and "split_ws (lines ! i) = parsed" and "parsed \<noteq> []"
    and "contains_str ''segment'' (hd parsed)"
    and "\<forall>l\<in>set lines. \<exists>out. relocate_line lim l = Inr out"
  shows "\<exists>outs. relocate_remapped_fragments_to_source_contigs lim lines = Inr outs \<and>
         length outs = length lines \<and>
         split_str [CHR 0x09] (butlast (outs ! i)) ! 1 = parsed ! 1 \<and>
         take (length parsed - 4) (drop 4 (split_str [CHR 0x09] (butlast (outs ! i)))) = drop 4 parsed \<and>
         (\<not> prefix ''_segment_'' (hd parsed) \<longrightarrow>
            length (split_ws (outs ! i)) = length parsed \<and> split_ws (outs ! i) ! 1 = parsed ! 1 \<and>
            drop 4 (split_ws (outs ! i)) = drop 4 parsed)"
proof -
  from relocate_file_total[OF assms(5)] obtain outs where
    outs: "relocate_remapped_fragments_to_source_contigs lim lines = Inr outs" by blast
  from relocate_file_Inr[OF outs] assms(1) have len: "length outs = length lines"
    and out: "relocate_line lim (lines ! i) = Inr (outs ! i)" by auto
  let ?out = "outs ! i"
  let ?new = "hd (split_str ''_segment_'' (hd parsed))"
  from relocate_line_fragment[OF assms(2,3,4) out] obtain m n where len4: "4 \<le> length parsed"
    and o: "?out = ?new @ [CHR 0x09] @ parsed ! 1 @ [CHR 0x09] @ decimal m @ [CHR 0x09]
          @ decimal n @ [CHR 0x09] @ join_str [CHR 0x09] (drop 4 parsed) @ [CHR 0x0A]"
    by blast
  have tok: "t \<noteq> [] \<and> (\<forall>c\<in>set t. \<not> is_space c)" if "t \<in> set parsed" for t
    using split_ws_tokens[of t "lines ! i"] that assms(2) by simp
  have h: "hd parsed \<in> set parsed" using assms(3) by simp
  have hne: "hd parsed \<noteq> []" using tok[OF h] by simp
  have new: "\<forall>c\<in>set ?new. \<not> is_space c"
    using tok[OF h] split_str_hd_chars[of "''_segment_''" "hd parsed"] by auto
  have "parsed ! 1 \<in> set parsed" using len4 by simp
  then have f1: "parsed ! 1 \<noteq> []" "\<forall>c\<in>set (parsed ! 1). \<not> is_space c"
    using tok by auto
  have num: "decimal j \<noteq> []" "\<forall>c\<in>set (decimal j). \<not> is_space c" for j
    using decimal_nonempty decimal_no_space by auto
  have rest: "\<forall>t\<in>set (drop 4 parsed). t \<noteq> [] \<and> (\<forall>c\<in>set t. \<not> is_space c)"
    using tok by (auto dest: in_set_dropD)
  have lr: "length (drop 4 parsed) = length parsed - 4" by simp
  have "split_str [CHR 0x09] (butlast ?out)
      = ?new # parsed ! 1 # decimal m # decimal n
          # (if drop 4 parsed = [] then [[]] else drop 4 parsed)"
    unfolding o using new f1(2) num(2) rest is_space_tab by (intro tab_fields) auto
  then have tabs: "split_str [CHR 0x09] (butlast ?out) ! 1 = parsed ! 1"
    "take (length parsed - 4) (drop 4 (split_str [CHR 0x09] (butlast ?out))) = drop 4 parsed"
    using lr by (auto simp del: length_drop)
  have ws: "length (split_ws ?out) = length parsed \<and> split_ws ?out ! 1 = parsed ! 1 \<and>
            drop 4 (split_ws ?out) = drop 4 parsed" if np: "\<not> prefix ''_segment_'' (hd parsed)"
  proof -
    have nne: "?new \<noteq> []" by (rule split_str_hd_nonempty[OF hne np])
    have j: "split_ws (join_str [CHR 0x09] (drop 4 parsed) @ [CHR 0x0A]) = drop 4 parsed"
      by (rule split_ws_join[OF rest is_space_tab is_space_nl])
    have 4: "split_ws (decimal n @ CHR 0x09 # (join_str [CHR 0x09] (drop 4 parsed) @ [CHR 0x0A]))
        = decimal n # drop 4 parsed"
      using split_ws_token[OF num is_space_tab] j by simp
    have 3: "split_ws (decimal m @ CHR 0x09 # decimal n @ CHR 0x09 # (join_str [CHR 0x09] (drop 4 parsed) @ [CHR 0x0A]))
        = decimal m # decimal n # drop 4 parsed"
      using split_ws_token[OF num is_space_tab] 4 by simp
    have 2: "split_ws (parsed ! 1 @ CHR 0x09 # decimal m @ CHR 0x09 # decimal n @ CHR 0x09 # (join_str [CHR 0x09] (drop 4 parsed) @ [CHR 0x0A]))
        = parsed ! 1 # decimal m # decimal n # drop 4 parsed"
      using split_ws_token[OF f1 is_space_tab] 3 by simp
    have 1: "split_ws (?new @ CHR 0x09 # parsed ! 1 @ CHR 0x09 # decimal m @ CHR 0x09 # decimal n @ CHR 0x09 # (join_str [CHR 0x09] (drop 4 parsed) @ [CHR 0x0A]))
        = ?new # parsed ! 1 # decimal m # decimal n # drop 4 parsed"
      using split_ws_token[OF nne new is_space_tab] 2 by simp
    have "split_ws ?out = ?new # parsed ! 1 # decimal m # decimal n # drop 4 parsed"
      unfolding o using 1 by simp
    moreover have "length (drop 4 parsed) + 4 = length parsed" using len4 by simp
    ultimately show ?thesis by simp
  qed
  from outs len tabs ws show ?thesis by blast
qed

text \<open>Claim C10 on a file of two records, the second the example of the specification.\<close>

theorem relocated_fields_kept_witness:
  "\<exists>outs. relocate_remapped_fragments_to_source_contigs 4300
            [''contig7 q 1 2 + chr'', ''X_segment_start_100_stop_200 q 10 50 + chr''] = Inr outs \<and>
          length outs = 2 \<and>
          split_str [CHR 0x09] (butlast (outs ! 1)) ! 1 = ''q'' \<and>
          take (6 - 4) (drop 4 (split_str [CHR 0x09] (butlast (outs ! 1)))) = [''+'', ''chr''] \<and>
          length (split_ws (outs ! 1)) = 6 \<and> split_ws (outs ! 1) ! 1 = ''q'' \<and>
          drop 4 (split_ws (outs ! 1)) = [''+'', ''chr'']"
proof -
  let ?lines = "[''contig7 q 1 2 + chr'', ''X_segment_start_100_stop_200 q 10 50 + chr'']"
  have i: "1 < length ?lines" by simp
  have p: "split_ws (?lines ! 1)
             = [''X_segment_start_100_stop_200'', ''q'', ''10'', ''50'', ''+'', ''chr'']"
    by code_simp
  have e: "[''X_segment_start_100_stop_200'', ''q'', ''10'', ''50'', ''+'', ''chr''] \<noteq> []" by simp
  have c: "contains_str ''segment'' (hd [''X_segment_start_100_stop_200'', ''q'', ''10'', ''50'', ''+'', ''chr''])"
    by code_simp
  have n: "\<not> prefix ''_segment_'' (hd [''X_segment_start_100_stop_200'', ''q'', ''10'', ''50'', ''+'', ''chr''])"
    by simp
  have r1: "relocate_line 4300 ''contig7 q 1 2 + chr'' = Inr ''contig7 q 1 2 + chr''" by code_simp
  have r2: "relocate_line 4300 ''X_segment_start_100_stop_200 q 10 50 + chr''
     = Inr (''X'' @ [CHR 0x09] @ ''q'' @ [CHR 0x09] @ ''110'' @ [CHR 0x09] @ ''150''
            @ [CHR 0x09] @ ''+'' @ [CHR 0x09] @ ''chr'' @ [CHR 0x0A])"
    by code_simp
  have all: "\<forall>l\<in>set ?lines. \<exists>out. relocate_line 4300 l = Inr out" using r1 r2 by simp
  from relocated_fields_kept[OF i p e c all] n show ?thesis
    by (simp add: eval_nat_numeral)
qed

end
